theory Spec2Isabelle
  imports Complex_Main "HOL-Library.Product_Lexorder"
begin

section \<open>Data model of the Reversi engine (src/Reversi/reversi.py)\<close>

text \<open>
  A cell of \<^verbatim>\<open>BoardGridType\<close> is \<^verbatim>\<open>Optional[int]\<close>; a grid is a list of rows.
  Positions are pairs of Python integers (which may be negative).
\<close>

type_synonym cell = "int option"
type_synonym grid_t = "cell list list"
type_synonym pos = "int \<times> int"

datatype error = ValueError | IndexError

text \<open>
  The attributes of a \<^verbatim>\<open>Reversi\<close> instance.  The class keeps two representations of
  the board: \<^verbatim>\<open>_board.grid\<close>, a grid of \<^verbatim>\<open>Piece\<close> objects (a \<^verbatim>\<open>Piece\<close> only
  holds its \<^verbatim>\<open>value\<close>, so a piece is modelled by that integer), and \<^verbatim>\<open>_grid\<close>, the
  grid of integers that the public interface reads.
\<close>

record reversi =
  side :: int
  players :: int
  othello :: bool
  board :: grid_t
  grid :: grid_t
  turn :: int
  num_moves :: int

text \<open>
  \<^verbatim>\<open>g[i][j]\<close> for indices that the surrounding code has already tested to be inside
  the list (every read of the engine is behind such a test, or uses indices produced by
  \<^verbatim>\<open>enumerate\<close>); \<^verbatim>\<open>g[i][j] = v\<close> likewise.
\<close>

definition cell_at :: "grid_t \<Rightarrow> int \<Rightarrow> int \<Rightarrow> cell" where
  "cell_at g i j = g ! nat i ! nat j"

definition set_cell :: "grid_t \<Rightarrow> int \<Rightarrow> int \<Rightarrow> cell \<Rightarrow> grid_t" where
  "set_cell g i j v = g[nat i := (g ! nat i)[nat j := v]]"

subsection \<open>class Board\<close>

definition Board :: "int \<Rightarrow> grid_t" where
  "Board sd = replicate (nat sd) (replicate (nat sd) None)"

definition add_piece :: "grid_t \<Rightarrow> int \<Rightarrow> pos \<Rightarrow> grid_t \<times> bool" where
  "add_piece b val location =
     (case location of (row, col) \<Rightarrow>
        if cell_at b row col = None then (set_cell b row col (Some val), True)
        else (b, False))"

subsection \<open>Reversi.__init__\<close>

definition new_game :: "int \<Rightarrow> int \<Rightarrow> bool \<Rightarrow> grid_t \<Rightarrow> reversi" where
  "new_game sd pl oth b =
     \<lparr>side = sd, players = pl, othello = oth, board = b, grid = b, turn = 1, num_moves = 0\<rparr>"

definition init :: "int \<Rightarrow> int \<Rightarrow> bool \<Rightarrow> error + reversi" where
  "init sd pl oth =
     (if pl > 9 \<or> pl < 2 then Inl ValueError
      else if sd < 3 then Inl ValueError
      else if pl > sd then Inl ValueError
      else if \<not> (sd mod 2 = 0 \<and> pl mod 2 = 0 \<or> sd mod 2 = 1 \<and> pl mod 2 = 1)
        then Inl ValueError
      else if oth then
        (if pl = 2 then
           Inr (new_game sd pl oth
             (fst (add_piece
               (fst (add_piece
                 (fst (add_piece
                   (fst (add_piece (Board sd) 1 (sd div 2 - 1, sd div 2)))
                   1 (sd div 2, sd div 2 - 1)))
                 2 (sd div 2 - 1, sd div 2 - 1)))
               2 (sd div 2, sd div 2))))
         else Inl ValueError)
      else Inr (new_game sd pl oth (Board sd)))"

subsection \<open>Outflank test and available moves\<close>

text \<open>
  \<^verbatim>\<open>check_end\<close> walks from \<^verbatim>\<open>loc\<close> in direction \<^verbatim>\<open>(ydir, xdir)\<close>.  The recursion of
  the source has no end for the direction \<^verbatim>\<open>(0, 0)\<close> on a foreign piece, so the function
  is partial: \<open>None\<close> stands for a call that does not return.
\<close>

partial_function (option) check_end :: "grid_t \<Rightarrow> int \<Rightarrow> pos \<Rightarrow> int \<Rightarrow> int \<Rightarrow> bool option" where
  "check_end g val loc ydir xdir =
     (if cell_at g (fst loc + ydir) (snd loc + xdir) = Some val then Some True
      else if cell_at g (fst loc + ydir) (snd loc + xdir) = None then Some False
      else if 0 \<le> fst loc + 2 * ydir \<and> fst loc + 2 * ydir < int (length g)
            \<and> 0 \<le> snd loc + 2 * xdir \<and> snd loc + 2 * xdir < int (length (g ! 0))
        then check_end g val (fst loc + ydir, snd loc + xdir) ydir xdir
      else Some False)"

declare check_end.simps [code]

definition open_spaces :: "reversi \<Rightarrow> pos list" where
  "open_spaces s =
     concat (map (\<lambda>i. concat (map (\<lambda>j. if board s ! i ! j = None then [(int i, int j)] else [])
                                   [0..<length (board s ! i)]))
                 [0..<length (board s)])"

text \<open>The two nested \<^verbatim>\<open>range(row-1, row+2)\<close>, \<^verbatim>\<open>range(col-1, col+2)\<close> loops.\<close>

definition neighbours :: "pos \<Rightarrow> pos list" where
  "neighbours p = concat (map (\<lambda>i. map (\<lambda>j. (i, j)) [snd p - 1..snd p + 1]) [fst p - 1..fst p + 1])"

text \<open>The test of the innermost loop body of \<^verbatim>\<open>players_av_moves\<close> for one neighbour.\<close>

definition av_dir :: "reversi \<Rightarrow> int \<Rightarrow> pos \<Rightarrow> pos \<Rightarrow> bool option" where
  "av_dir s t c n =
     (if 0 \<le> fst n \<and> fst n < int (length (grid s))
         \<and> 0 \<le> snd n \<and> snd n < int (length (grid s ! 0))
         \<and> (fst n \<noteq> fst c \<or> snd n \<noteq> snd c)
      then (if cell_at (grid s) (fst n) (snd n) \<noteq> Some t
            then check_end (grid s) t c (fst n - fst c) (snd n - snd c)
            else Some False)
      else Some False)"

fun av_dirs :: "reversi \<Rightarrow> int \<Rightarrow> pos \<Rightarrow> pos list \<Rightarrow> bool option" where
  "av_dirs s t c [] = Some False"
| "av_dirs s t c (n # ns) =
     (case av_dir s t c n of None \<Rightarrow> None
      | Some b \<Rightarrow> (case av_dirs s t c ns of None \<Rightarrow> None | Some r \<Rightarrow> Some (b \<or> r)))"

fun av_cells :: "reversi \<Rightarrow> int \<Rightarrow> pos list \<Rightarrow> pos list option" where
  "av_cells s t [] = Some []"
| "av_cells s t (c # cs) =
     (case av_dirs s t c (neighbours c) of None \<Rightarrow> None
      | Some b \<Rightarrow> (case av_cells s t cs of None \<Rightarrow> None
                   | Some r \<Rightarrow> Some (if b then c # r else r)))"

definition top_left :: "reversi \<Rightarrow> int" where
  "top_left s = side s div 2 - players s div 2"

definition centre_block :: "reversi \<Rightarrow> pos list" where
  "centre_block s =
     concat (map (\<lambda>i. map (\<lambda>j. (i, j)) [top_left s..top_left s + players s - 1])
                 [top_left s..top_left s + players s - 1])"

text \<open>
  \<^verbatim>\<open>possible\<close> is a Python set, turned into a list and sorted: duplicates vanish and the
  order is the lexicographic order of tuples.
\<close>

definition players_av_moves :: "reversi \<Rightarrow> int \<Rightarrow> pos list option" where
  "players_av_moves s t =
     (if \<not> othello s \<and> num_moves s < players s * players s
      then Some (sort (remdups (filter (\<lambda>c. cell_at (grid s) (fst c) (snd c) = None)
                                       (centre_block s))))
      else (case av_cells s t (open_spaces s) of None \<Rightarrow> None
            | Some ps \<Rightarrow> Some (sort (remdups ps))))"

definition available_moves :: "reversi \<Rightarrow> pos list option" where
  "available_moves s = players_av_moves s (turn s)"

fun done_loop :: "reversi \<Rightarrow> int list \<Rightarrow> bool option" where
  "done_loop s [] = Some True"
| "done_loop s (i # is) =
     (case players_av_moves s i of None \<Rightarrow> None
      | Some ms \<Rightarrow> if ms \<noteq> [] then Some False else done_loop s is)"

definition done_prop :: "reversi \<Rightarrow> bool option" where
  "done_prop s = done_loop s [1..players s]"

subsection \<open>Turn change\<close>

text \<open>
  \<^verbatim>\<open>change_turn\<close> calls itself until the new current player has a move; \<open>None\<close> stands
  for a recursion that never ends.
\<close>

definition next_turn :: "reversi \<Rightarrow> int" where
  "next_turn s = (if turn s = players s then 1 else turn s + 1)"

partial_function (option) change_turn :: "reversi \<Rightarrow> reversi option" where
  "change_turn s =
     (case done_prop s of None \<Rightarrow> None
      | Some d \<Rightarrow>
          if \<not> d then
            (case available_moves (s\<lparr>turn := next_turn s\<rparr>) of None \<Rightarrow> None
             | Some ms \<Rightarrow> if ms = [] then change_turn (s\<lparr>turn := next_turn s\<rparr>)
                          else Some (s\<lparr>turn := next_turn s\<rparr>))
          else Some s)"

declare change_turn.simps [code]

subsection \<open>Reading a cell, testing a move\<close>

definition piece_at :: "reversi \<Rightarrow> pos \<Rightarrow> error + cell" where
  "piece_at s p =
     (if \<not> (0 \<le> fst p \<and> fst p \<le> side s - 1 \<and> 0 \<le> snd p \<and> snd p \<le> side s - 1)
      then Inl ValueError
      else Inr (cell_at (grid s) (fst p) (snd p)))"

definition legal_move :: "reversi \<Rightarrow> pos \<Rightarrow> (error + bool) option" where
  "legal_move s p =
     (if \<not> (0 \<le> fst p \<and> fst p < side s \<and> 0 \<le> snd p \<and> snd p < side s)
      then Some (Inl ValueError)
      else (case available_moves s of None \<Rightarrow> None | Some ms \<Rightarrow> Some (Inr (p \<in> set ms))))"

subsection \<open>Applying a move\<close>

text \<open>
  The first statement of \<^verbatim>\<open>flip_pieces\<close>: the neighbouring cell is turned over when
  \<^verbatim>\<open>_grid\<close> holds a foreign piece there and \<^verbatim>\<open>_board.grid\<close> holds a piece object.
  The pair is \<^verbatim>\<open>(_board.grid, _grid)\<close>.
\<close>

definition flip_one :: "grid_t \<times> grid_t \<Rightarrow> int \<Rightarrow> int \<Rightarrow> int \<Rightarrow> grid_t \<times> grid_t" where
  "flip_one bg val r c =
     (if cell_at (snd bg) r c \<noteq> Some val \<and> cell_at (snd bg) r c \<noteq> None
      then (if cell_at (fst bg) r c \<noteq> None
            then (set_cell (fst bg) r c (Some val), set_cell (snd bg) r c (Some val))
            else bg)
      else bg)"

partial_function (option) flip_pieces ::
    "grid_t \<times> grid_t \<Rightarrow> int \<Rightarrow> pos \<Rightarrow> int \<Rightarrow> int \<Rightarrow> (grid_t \<times> grid_t) option" where
  "flip_pieces bg val start ydir xdir =
     (if 0 \<le> fst start + 2 * ydir
         \<and> fst start + 2 * ydir < int (length (snd (flip_one bg val (fst start + ydir) (snd start + xdir))))
         \<and> 0 \<le> snd start + 2 * xdir
         \<and> snd start + 2 * xdir < int (length (snd (flip_one bg val (fst start + ydir) (snd start + xdir)) ! 0))
      then (case check_end (snd (flip_one bg val (fst start + ydir) (snd start + xdir))) val
                   (fst start + ydir, snd start + xdir) ydir xdir of
              None \<Rightarrow> None
            | Some b \<Rightarrow>
                if b then flip_pieces (flip_one bg val (fst start + ydir) (snd start + xdir)) val
                            (fst start + ydir, snd start + xdir) ydir xdir
                else Some (flip_one bg val (fst start + ydir) (snd start + xdir)))
      else Some (flip_one bg val (fst start + ydir) (snd start + xdir)))"

declare flip_pieces.simps [code]

text \<open>
  In \<^verbatim>\<open>apply_move\<close> the neighbour test reads \<^verbatim>\<open>self._board.grid[i][j] != self.turn\<close>:
  a \<^verbatim>\<open>Piece\<close> object (or \<^verbatim>\<open>None\<close>) is compared with an integer.  \<^verbatim>\<open>Piece\<close> defines no
  \<^verbatim>\<open>__eq__\<close>, so the comparison is by identity and \<^verbatim>\<open>!=\<close> holds whatever the piece is.
\<close>

definition piece_differs :: "cell \<Rightarrow> int \<Rightarrow> bool" where
  "piece_differs piece t = True"

text \<open>The body of the double loop of \<^verbatim>\<open>apply_move\<close> for one neighbour \<open>n\<close>.\<close>

definition flip_dir :: "reversi \<Rightarrow> pos \<Rightarrow> pos \<Rightarrow> reversi option" where
  "flip_dir s p n =
     (if 0 \<le> fst n \<and> fst n < side s \<and> 0 \<le> snd n \<and> snd n < side s
         \<and> (fst n \<noteq> fst p \<or> snd n \<noteq> snd p)
      then (if piece_differs (cell_at (board s) (fst n) (snd n)) (turn s)
            then (case check_end (grid s) (turn s) p (fst n - fst p) (snd n - snd p) of
                    None \<Rightarrow> None
                  | Some b \<Rightarrow>
                      if b \<and> (othello s \<or> num_moves s \<ge> players s * players s)
                      then (case flip_pieces (board s, grid s) (turn s) p
                                   (fst n - fst p) (snd n - snd p) of
                              None \<Rightarrow> None
                            | Some bg \<Rightarrow> Some (s\<lparr>board := fst bg, grid := snd bg\<rparr>))
                      else Some s)
            else Some s)
      else Some s)"

fun flip_dirs :: "reversi \<Rightarrow> pos \<Rightarrow> pos list \<Rightarrow> reversi option" where
  "flip_dirs s p [] = Some s"
| "flip_dirs s p (n # ns) =
     (case flip_dir s p n of None \<Rightarrow> None | Some s' \<Rightarrow> flip_dirs s' p ns)"

definition place_piece :: "reversi \<Rightarrow> pos \<Rightarrow> reversi" where
  "place_piece s p =
     (if snd (add_piece (board s) (turn s) p)
      then s\<lparr>board := fst (add_piece (board s) (turn s) p),
              grid := set_cell (grid s) (fst p) (snd p) (Some (turn s))\<rparr>
      else s\<lparr>board := fst (add_piece (board s) (turn s) p)\<rparr>)"

definition apply_move :: "reversi \<Rightarrow> pos \<Rightarrow> (error + reversi) option" where
  "apply_move s p =
     (if \<not> (0 \<le> fst p \<and> fst p \<le> side s - 1 \<and> 0 \<le> snd p \<and> snd p \<le> side s - 1)
      then Some (Inl ValueError)
      else (case flip_dirs (place_piece s p) p (neighbours p) of
              None \<Rightarrow> None
            | Some s' \<Rightarrow>
                (case change_turn (s'\<lparr>num_moves := num_moves s' + 1\<rparr>) of
                   None \<Rightarrow> None
                 | Some s'' \<Rightarrow> Some (Inr s''))))"

subsection \<open>Loading a game\<close>

text \<open>
  The double loop of \<^verbatim>\<open>load_game\<close> over the cells of the supplied grid.  Its state is
  \<^verbatim>\<open>(newboard.grid, self._grid, nummoves)\<close>; \<^verbatim>\<open>self._grid\<close> is written in place while
  the cells are still being validated, so the state reached so far is returned together
  with the exception.  \<^verbatim>\<open>isinstance(num, int)\<close> holds by typing.  An index past the end
  of a row of \<^verbatim>\<open>newboard.grid\<close> or \<^verbatim>\<open>self._grid\<close> raises \<^verbatim>\<open>IndexError\<close>.
\<close>

fun load_cells ::
    "int \<Rightarrow> nat \<Rightarrow> nat \<Rightarrow> cell list \<Rightarrow> grid_t \<times> grid_t \<times> int
      \<Rightarrow> error option \<times> grid_t \<times> grid_t \<times> int" where
  "load_cells pl i j [] st = (None, st)"
| "load_cells pl i j (num # row) (nb, g, n) =
     (case num of
        None \<Rightarrow> load_cells pl i (Suc j) row (nb, g, n)
      | Some v \<Rightarrow>
          if \<not> (0 < v \<and> v \<le> pl) then (Some ValueError, (nb, g, n))
          else if \<not> (i < length nb \<and> j < length (nb ! i)) then (Some IndexError, (nb, g, n))
          else if \<not> (i < length g \<and> j < length (g ! i))
            then (Some IndexError, (fst (add_piece nb v (int i, int j)), g, n))
          else load_cells pl i (Suc j) row
                 (fst (add_piece nb v (int i, int j)), set_cell g (int i) (int j) (Some v), n + 1))"

fun load_rows ::
    "int \<Rightarrow> nat \<Rightarrow> grid_t \<Rightarrow> grid_t \<times> grid_t \<times> int \<Rightarrow> error option \<times> grid_t \<times> grid_t \<times> int" where
  "load_rows pl i [] st = (None, st)"
| "load_rows pl i (row # rows) st =
     (case load_cells pl i 0 row st of
        (Some e, st') \<Rightarrow> (Some e, st')
      | (None, st') \<Rightarrow> load_rows pl (Suc i) rows st')"

text \<open>
  The result is the exception raised, if any, and the state in which the instance is
  left.  \<^verbatim>\<open>isinstance(turn, int)\<close> holds by typing.  The move counter is assigned after
  the test of \<^verbatim>\<open>available_moves\<close> and the call of \<^verbatim>\<open>change_turn\<close>.
\<close>

definition load_game :: "reversi \<Rightarrow> int \<Rightarrow> grid_t \<Rightarrow> (error option \<times> reversi) option" where
  "load_game s t gr =
     (if side s \<noteq> int (length gr) then Some (Some ValueError, s)
      else if t > players s then Some (Some ValueError, s)
      else (case load_rows (players s) 0 gr (Board (int (length gr)), grid s, 0) of
              (Some e, (nb, g, n)) \<Rightarrow> Some (Some e, s\<lparr>grid := g\<rparr>)
            | (None, (nb, g, n)) \<Rightarrow>
                (case available_moves (s\<lparr>board := nb, grid := g, turn := t\<rparr>) of
                   None \<Rightarrow> None
                 | Some ms \<Rightarrow>
                     (case (if ms = [] then change_turn (s\<lparr>board := nb, grid := g, turn := t\<rparr>)
                            else Some (s\<lparr>board := nb, grid := g, turn := t\<rparr>)) of
                        None \<Rightarrow> None
                      | Some s' \<Rightarrow> Some (None, s'\<lparr>num_moves := n\<rparr>)))))"

subsection \<open>Simulating moves\<close>

text \<open>
  The loop of \<^verbatim>\<open>simulate_moves\<close>: \<open>self\<close> is only read (its \<^verbatim>\<open>_side\<close>), every move
  is applied to the copy \<open>sim\<close>.
\<close>

fun sim_loop :: "reversi \<Rightarrow> reversi \<Rightarrow> pos list \<Rightarrow> (error + reversi) option" where
  "sim_loop self sim [] = Some (Inr sim)"
| "sim_loop self sim (m # ms) =
     (if \<not> (0 \<le> fst m \<and> fst m < side self \<and> 0 \<le> snd m \<and> snd m < side self)
      then Some (Inl ValueError)
      else (case apply_move sim m of
              None \<Rightarrow> None
            | Some (Inl e) \<Rightarrow> Some (Inl e)
            | Some (Inr sim') \<Rightarrow> sim_loop self sim' ms))"

subsection \<open>Concrete games\<close>

text \<open>The game built by \<^verbatim>\<open>Reversi(4, 2, True)\<close> and the one built by \<^verbatim>\<open>Reversi(4, 2, False)\<close>.\<close>

definition othello4 :: reversi where
  "othello4 =
     \<lparr>side = 4, players = 2, othello = True,
      board = [[None, None, None, None], [None, Some 2, Some 1, None],
               [None, Some 1, Some 2, None], [None, None, None, None]],
      grid = [[None, None, None, None], [None, Some 2, Some 1, None],
              [None, Some 1, Some 2, None], [None, None, None, None]],
      turn = 1, num_moves = 0\<rparr>"

definition empty4 :: grid_t where
  "empty4 = [[None, None, None, None], [None, None, None, None],
             [None, None, None, None], [None, None, None, None]]"

definition fresh4 :: reversi where
  "fresh4 =
     \<lparr>side = 4, players = 2, othello = False, board = empty4, grid = empty4,
      turn = 1, num_moves = 0\<rparr>"

text \<open>
  A 4x4 game of two players past the opening phase, player 2 to move: after player 2 plays
  (0, 2), player 1 has no move and player 2 has one.
\<close>

definition skip4 :: reversi where
  "skip4 =
     \<lparr>side = 4, players = 2, othello = False,
      board = [[Some 2, Some 1, None, None], [None, None, None, None],
               [None, None, None, None], [Some 2, Some 1, None, None]],
      grid = [[Some 2, Some 1, None, None], [None, None, None, None],
              [None, None, None, None], [Some 2, Some 1, None, None]],
      turn = 2, num_moves = 4\<rparr>"

definition skip4_after :: reversi where
  "skip4_after =
     \<lparr>side = 4, players = 2, othello = False,
      board = [[Some 2, Some 2, Some 2, None], [None, None, None, None],
               [None, None, None, None], [Some 2, Some 1, None, None]],
      grid = [[Some 2, Some 2, Some 2, None], [None, None, None, None],
              [None, None, None, None], [Some 2, Some 1, None, None]],
      turn = 2, num_moves = 5\<rparr>"

text \<open>
  A 3x3 game of three players after the moves (0, 0), (0, 1), (1, 0): still in the opening
  phase, player 1 to move; and the same game after player 1 has played (0, 2).
\<close>

definition open3 :: reversi where
  "open3 =
     \<lparr>side = 3, players = 3, othello = False,
      board = [[Some 1, Some 2, None], [Some 3, None, None], [None, None, None]],
      grid = [[Some 1, Some 2, None], [Some 3, None, None], [None, None, None]],
      turn = 1, num_moves = 3\<rparr>"

definition open3_after :: reversi where
  "open3_after =
     \<lparr>side = 3, players = 3, othello = False,
      board = [[Some 1, Some 2, Some 1], [Some 3, None, None], [None, None, None]],
      grid = [[Some 1, Some 2, Some 1], [Some 3, None, None], [None, None, None]],
      turn = 2, num_moves = 4\<rparr>"

text \<open>The Othello start position after player 1 has played (0, 1).\<close>

definition othello4_after :: reversi where
  "othello4_after =
     \<lparr>side = 4, players = 2, othello = True,
      board = [[None, Some 1, None, None], [None, Some 1, Some 1, None],
               [None, Some 1, Some 2, None], [None, None, None, None]],
      grid = [[None, Some 1, None, None], [None, Some 1, Some 1, None],
              [None, Some 1, Some 2, None], [None, None, None, None]],
      turn = 2, num_moves = 1\<rparr>"

text \<open>
  A 6x6 Othello-variant position whose first row holds, from column 1 on, the pieces
  2, 1, 2, 1; player 1 to move.
\<close>

definition row6 :: reversi where
  "row6 =
     \<lparr>side = 6, players = 2, othello = True,
      board = [[None, Some 2, Some 1, Some 2, Some 1, None], [None, None, None, None, None, None],
               [None, None, None, None, None, None], [None, None, None, None, None, None],
               [None, None, None, None, None, None], [None, None, None, None, None, None]],
      grid = [[None, Some 2, Some 1, Some 2, Some 1, None], [None, None, None, None, None, None],
              [None, None, None, None, None, None], [None, None, None, None, None, None],
              [None, None, None, None, None, None], [None, None, None, None, None, None]],
      turn = 1, num_moves = 4\<rparr>"

subsection \<open>simulate_moves on values\<close>

text \<open>
  \<^verbatim>\<open>deepcopy(self)\<close> yields an instance with the same attribute values; on values the
  copy is the state itself.  The store below gives the copy its own identity.
\<close>

definition simulate_moves :: "reversi \<Rightarrow> pos list \<Rightarrow> (error + reversi) option" where
  "simulate_moves s ms = sim_loop s s ms"

text \<open>Calling \<^verbatim>\<open>apply_move\<close> for each move in turn on a live game.\<close>

fun apply_moves :: "reversi \<Rightarrow> pos list \<Rightarrow> (error + reversi) option" where
  "apply_moves s [] = Some (Inr s)"
| "apply_moves s (m # ms) =
     (case apply_move s m of
        None \<Rightarrow> None
      | Some (Inl e) \<Rightarrow> Some (Inl e)
      | Some (Inr s') \<Rightarrow> apply_moves s' ms)"

section \<open>The store: instances and list objects with identity\<close>

text \<open>
  A \<^verbatim>\<open>Reversi\<close> instance holds a reference to the list object \<^verbatim>\<open>_grid\<close>; the
  \<^verbatim>\<open>grid\<close> property hands this reference out, so the list can be shared with callers.
  The store keeps instances and list objects at addresses (indices); a new object gets
  the next index.  A nested list is kept as one object.  \<^verbatim>\<open>_board\<close> and its pieces are
  never handed out and stay inside the instance.
\<close>

type_synonym ref = nat

record reversi_obj =
  i_side :: int
  i_players :: int
  i_othello :: bool
  i_board :: grid_t
  i_grid :: ref
  i_turn :: int
  i_num_moves :: int

record heap =
  objects :: "reversi_obj list"
  lists :: "grid_t list"

text \<open>The attribute values of the instance at \<open>r\<close>, the list read through its reference.\<close>

definition state_of :: "heap \<Rightarrow> ref \<Rightarrow> reversi" where
  "state_of h r =
     \<lparr>side = i_side (objects h ! r), players = i_players (objects h ! r),
      othello = i_othello (objects h ! r), board = i_board (objects h ! r),
      grid = lists h ! i_grid (objects h ! r), turn = i_turn (objects h ! r),
      num_moves = i_num_moves (objects h ! r)\<rparr>"

text \<open>
  The effect of a method that leaves the instance at \<open>r\<close> in state \<open>s\<close>: \<^verbatim>\<open>_board\<close>,
  \<^verbatim>\<open>_turn\<close> and \<^verbatim>\<open>_num_moves\<close> are assigned, \<^verbatim>\<open>_grid\<close> is written in place (the methods
  never rebind it).
\<close>

definition store_state :: "heap \<Rightarrow> ref \<Rightarrow> reversi \<Rightarrow> heap" where
  "store_state h r s =
     h\<lparr>objects := (objects h)[r := (objects h ! r)\<lparr>i_board := board s, i_turn := turn s,
                                                   i_num_moves := num_moves s\<rparr>],
       lists := (lists h)[i_grid (objects h ! r) := grid s]\<rparr>"

definition deepcopy :: "heap \<Rightarrow> ref \<Rightarrow> heap \<times> ref" where
  "deepcopy h r =
     (h\<lparr>objects := objects h @ [(objects h ! r)\<lparr>i_grid := length (lists h)\<rparr>],
        lists := lists h @ [lists h ! i_grid (objects h ! r)]\<rparr>,
      length (objects h))"

text \<open>The \<^verbatim>\<open>grid\<close> property of \<^verbatim>\<open>Reversi\<close>: \<^verbatim>\<open>return self._grid\<close>.\<close>

definition h_grid :: "heap \<Rightarrow> ref \<Rightarrow> heap \<times> ref" where
  "h_grid h r = (h, i_grid (objects h ! r))"

text \<open>The \<^verbatim>\<open>grid\<close> property of the mocks in mocks.py: \<^verbatim>\<open>return deepcopy(self._grid)\<close>.\<close>

definition h_grid_mock :: "heap \<Rightarrow> ref \<Rightarrow> heap \<times> ref" where
  "h_grid_mock h r =
     (h\<lparr>lists := lists h @ [lists h ! i_grid (objects h ! r)]\<rparr>, length (lists h))"

text \<open>A caller's assignment \<^verbatim>\<open>g[i][j] = v\<close> to the list object at \<open>g\<close>.\<close>

definition list_write :: "heap \<Rightarrow> ref \<Rightarrow> int \<Rightarrow> int \<Rightarrow> cell \<Rightarrow> heap" where
  "list_write h g i j v = h\<lparr>lists := (lists h)[g := set_cell (lists h ! g) i j v]\<rparr>"

definition h_piece_at :: "heap \<Rightarrow> ref \<Rightarrow> pos \<Rightarrow> error + cell" where
  "h_piece_at h r p = piece_at (state_of h r) p"

definition h_apply_move :: "heap \<Rightarrow> ref \<Rightarrow> pos \<Rightarrow> (error option \<times> heap) option" where
  "h_apply_move h r p =
     (case apply_move (state_of h r) p of
        None \<Rightarrow> None
      | Some (Inl e) \<Rightarrow> Some (Some e, h)
      | Some (Inr s') \<Rightarrow> Some (None, store_state h r s'))"

fun h_sim_loop :: "heap \<Rightarrow> ref \<Rightarrow> ref \<Rightarrow> pos list \<Rightarrow> ((error + ref) \<times> heap) option" where
  "h_sim_loop h self sim [] = Some (Inr sim, h)"
| "h_sim_loop h self sim (m # ms) =
     (if \<not> (0 \<le> fst m \<and> fst m < i_side (objects h ! self)
             \<and> 0 \<le> snd m \<and> snd m < i_side (objects h ! self))
      then Some (Inl ValueError, h)
      else (case h_apply_move h sim m of
              None \<Rightarrow> None
            | Some (Some e, h') \<Rightarrow> Some (Inl e, h')
            | Some (None, h') \<Rightarrow> h_sim_loop h' self sim ms))"

definition h_simulate_moves :: "heap \<Rightarrow> ref \<Rightarrow> pos list \<Rightarrow> ((error + ref) \<times> heap) option" where
  "h_simulate_moves h self ms = h_sim_loop (fst (deepcopy h self)) self (snd (deepcopy h self)) ms"

text \<open>A store that holds one instance, the Othello start position, and its list object.\<close>

definition heap0 :: heap where
  "heap0 =
     \<lparr>objects = [\<lparr>i_side = 4, i_players = 2, i_othello = True, i_board = board othello4,
                   i_grid = 0, i_turn = 1, i_num_moves = 0\<rparr>],
      lists = [grid othello4]\<rparr>"

section \<open>The lookahead bot (src/Reversi/bot.py)\<close>

text \<open>The number of cells of a grid equal to \<open>t\<close> (the two \<^verbatim>\<open>for\<close> loops over rows and cells).\<close>

definition count_cells :: "grid_t \<Rightarrow> int \<Rightarrow> int" where
  "count_cells g t = sum_list (map (\<lambda>row. int (length (filter (\<lambda>c. c = Some t) row))) g)"

text \<open>The loop over \<^verbatim>\<open>next_possible\<close>, adding to \<^verbatim>\<open>total\<close> (here \<open>tot\<close>).\<close>

fun seer_total :: "reversi \<Rightarrow> int \<Rightarrow> pos list \<Rightarrow> int \<Rightarrow> (error + int) option" where
  "seer_total step_one t [] tot = Some (Inr tot)"
| "seer_total step_one t (move_two # ms) tot =
     (case simulate_moves step_one [move_two] of
        None \<Rightarrow> None
      | Some (Inl e) \<Rightarrow> Some (Inl e)
      | Some (Inr final) \<Rightarrow> seer_total step_one t ms (tot + count_cells (grid final) t))"

text \<open>
  The loop over \<^verbatim>\<open>possible\<close>.  \<^verbatim>\<open>highest\<close> starts at \<^verbatim>\<open>-math.inf\<close>, here \<open>None\<close>;
  the quotient \<^verbatim>\<open>total / len(next_possible)\<close> of two integers is compared as a rational
  number.  The \<^verbatim>\<open>break\<close> ends the loop with \<^verbatim>\<open>best = [move]\<close>.
\<close>

fun seer_loop ::
    "reversi \<Rightarrow> int \<Rightarrow> pos list \<Rightarrow> rat option \<Rightarrow> pos list \<Rightarrow> (error + pos list) option" where
  "seer_loop revgame t [] highest best = Some (Inr best)"
| "seer_loop revgame t (move # rest) highest best =
     (case simulate_moves revgame [move] of
        None \<Rightarrow> None
      | Some (Inl e) \<Rightarrow> Some (Inl e)
      | Some (Inr step_one) \<Rightarrow>
          (case done_prop step_one of
             None \<Rightarrow> None
           | Some d \<Rightarrow>
               if d then Some (Inr [move])
               else (case available_moves step_one of
                       None \<Rightarrow> None
                     | Some next_possible \<Rightarrow>
                         if next_possible \<noteq> [] then
                           (case seer_total step_one t next_possible 0 of
                              None \<Rightarrow> None
                            | Some (Inl e) \<Rightarrow> Some (Inl e)
                            | Some (Inr tot) \<Rightarrow>
                                if (case highest of None \<Rightarrow> True
                                    | Some hi \<Rightarrow> of_int tot / of_int (int (length next_possible)) > hi)
                                then seer_loop revgame t rest
                                       (Some (of_int tot / of_int (int (length next_possible)))) [move]
                                else if highest = Some (of_int tot / of_int (int (length next_possible)))
                                then seer_loop revgame t rest highest (best @ [move])
                                else seer_loop revgame t rest highest best)
                         else seer_loop revgame t rest highest best)))"

text \<open>
  \<^verbatim>\<open>random.randint\<close> is a parameter.  \<^verbatim>\<open>best[pick]\<close> is Python indexing: a negative
  index counts from the end, an index outside the list raises \<^verbatim>\<open>IndexError\<close>.
\<close>

definition py_index :: "'a list \<Rightarrow> int \<Rightarrow> error + 'a" where
  "py_index xs i =
     (if 0 \<le> i \<and> i < int (length xs) then Inr (xs ! nat i)
      else if - int (length xs) \<le> i \<and> i < 0 then Inr (xs ! nat (int (length xs) + i))
      else Inl IndexError)"

definition seer_move :: "(int \<Rightarrow> int \<Rightarrow> int) \<Rightarrow> reversi \<Rightarrow> int \<Rightarrow> (error + reversi) option" where
  "seer_move randint revgame t =
     (case available_moves revgame of
        None \<Rightarrow> None
      | Some possible \<Rightarrow>
          (case seer_loop revgame t possible None [] of
             None \<Rightarrow> None
           | Some (Inl e) \<Rightarrow> Some (Inl e)
           | Some (Inr best) \<Rightarrow>
               if best \<noteq> [] then
                 (case py_index best (randint 0 (int (length best) - 1)) of
                    Inl e \<Rightarrow> Some (Inl e)
                  | Inr m \<Rightarrow> apply_move revgame m)
               else Some (Inr revgame)))"

text \<open>
  A 4x4 Othello-variant position with two empty cells, player 1 to move: the move (0, 0)
  leaves player 1 a further move, the move (1, 0) ends the game.
\<close>

definition endgame4 :: reversi where
  "endgame4 =
     \<lparr>side = 4, players = 2, othello = True,
      board = [[None, Some 1, Some 1, Some 1], [None, Some 2, Some 1, Some 1],
               [Some 2, Some 1, Some 1, Some 1], [Some 1, Some 1, Some 1, Some 1]],
      grid = [[None, Some 1, Some 1, Some 1], [None, Some 2, Some 1, Some 1],
              [Some 2, Some 1, Some 1, Some 1], [Some 1, Some 1, Some 1, Some 1]],
      turn = 1, num_moves = 10\<rparr>"

text \<open>A \<^verbatim>\<open>randint\<close> that always draws the lower bound.\<close>

definition randint_low :: "int \<Rightarrow> int \<Rightarrow> int" where
  "randint_low a b = a"

section \<open>Notions used to state the properties\<close>

text \<open>A cell inside the grid, by the test that the walks of the source use.\<close>

definition in_grid :: "grid_t \<Rightarrow> pos \<Rightarrow> bool" where
  "in_grid g c = (0 \<le> fst c \<and> fst c < int (length g) \<and> 0 \<le> snd c \<and> snd c < int (length (g ! 0)))"

text \<open>A grid of \<open>sd\<close> rows of \<open>sd\<close> cells.\<close>

definition square :: "grid_t \<Rightarrow> int \<Rightarrow> bool" where
  "square g sd = (length g = nat sd \<and> list_all (\<lambda>row. length row = nat sd) g)"

text \<open>A piece of another player than \<open>val\<close> at \<open>c\<close>.\<close>

definition foreign :: "grid_t \<Rightarrow> int \<Rightarrow> pos \<Rightarrow> bool" where
  "foreign g val c = (cell_at g (fst c) (snd c) \<noteq> None \<and> cell_at g (fst c) (snd c) \<noteq> Some val)"

text \<open>The \<open>k\<close>-th cell from \<open>p\<close> in direction \<open>d\<close>.\<close>

definition along :: "pos \<Rightarrow> pos \<Rightarrow> int \<Rightarrow> pos" where
  "along p d k = (fst p + k * fst d, snd p + k * snd d)"

text \<open>
  An outflanked run of length \<open>k\<close>: the \<open>k\<close> cells after \<open>p\<close> in direction \<open>d\<close> are inside the
  grid and hold foreign pieces, and the next cell is inside the grid and holds \<open>val\<close>.
\<close>

definition outflanked :: "grid_t \<Rightarrow> int \<Rightarrow> pos \<Rightarrow> pos \<Rightarrow> nat \<Rightarrow> bool" where
  "outflanked g val p d k =
     (list_all (\<lambda>j. in_grid g (along p d (int j)) \<and> foreign g val (along p d (int j))) [1..<Suc k]
      \<and> in_grid g (along p d (int k + 1))
      \<and> cell_at g (fst (along p d (int k + 1))) (snd (along p d (int k + 1))) = Some val)"

text \<open>One of the eight directions.\<close>

definition unit_dir :: "pos \<Rightarrow> bool" where
  "unit_dir d = (fst d \<in> {-1, 0, 1} \<and> snd d \<in> {-1, 0, 1} \<and> d \<noteq> (0, 0))"

text \<open>
  The shape of a state that the constructor builds and every method keeps: both grids are
  \<open>side \<times> side\<close>, there are at most \<open>side\<close> players, and the turn is a player in
  \<open>1, \<dots>, players\<close>.
\<close>

definition wf_state :: "reversi \<Rightarrow> bool" where
  "wf_state s =
     (players s \<le> side s \<and> square (grid s) (side s) \<and> square (board s) (side s)
      \<and> 1 \<le> turn s \<and> turn s \<le> players s)"

text \<open>The opening phase, by the test of \<^verbatim>\<open>players_av_moves\<close>.\<close>

definition opening_phase :: "reversi \<Rightarrow> bool" where
  "opening_phase s = (\<not> othello s \<and> num_moves s < players s * players s)"

text \<open>
  The distance that a walk from \<open>loc\<close> in direction \<open>(ydir, xdir)\<close> still has to the edge
  of the grid; it decreases with every step of \<^verbatim>\<open>check_end\<close> and \<^verbatim>\<open>flip_pieces\<close>.
\<close>

definition walk_measure :: "grid_t \<Rightarrow> pos \<Rightarrow> int \<Rightarrow> int \<Rightarrow> nat" where
  "walk_measure g loc ydir xdir =
     (if ydir > 0 then nat (int (length g) - fst loc)
      else if ydir < 0 then nat (fst loc + 1)
      else if xdir > 0 then nat (int (length (g ! 0)) - snd loc)
      else nat (snd loc + 1))"

text \<open>The \<open>k\<close>-th player after player \<open>t\<close> in the cyclic order \<open>1, \<dots>, P\<close>.\<close>

definition player_after :: "int \<Rightarrow> int \<Rightarrow> int \<Rightarrow> int" where
  "player_after P t k = (t - 1 + k) mod P + 1"

text \<open>
  From grid \<open>g\<close> to grid \<open>g'\<close> nothing changes except that foreign pieces on the ray from
  \<open>p\<close> in direction \<open>d\<close> may have become pieces of \<open>val\<close>.
\<close>

definition only_flips :: "grid_t \<Rightarrow> grid_t \<Rightarrow> int \<Rightarrow> pos \<Rightarrow> pos \<Rightarrow> bool" where
  "only_flips g g' val p d =
     (\<forall>c. in_grid g c \<longrightarrow>
        cell_at g' (fst c) (snd c) = cell_at g (fst c) (snd c)
        \<or> (foreign g val c \<and> cell_at g' (fst c) (snd c) = Some val
            \<and> (\<exists>k. 1 \<le> k \<and> c = along p d k)))"

text \<open>
  From grid \<open>g\<close> to grid \<open>g'\<close> nothing changes except that foreign pieces may have
  become pieces of \<open>val\<close>.
\<close>

definition only_captures :: "grid_t \<Rightarrow> grid_t \<Rightarrow> int \<Rightarrow> bool" where
  "only_captures g g' val =
     (\<forall>c. in_grid g c \<longrightarrow>
        cell_at g' (fst c) (snd c) = cell_at g (fst c) (snd c)
        \<or> (foreign g val c \<and> cell_at g' (fst c) (snd c) = Some val))"

text \<open>An instance in the store whose \<^verbatim>\<open>_grid\<close> reference points to a list object.\<close>

definition live :: "heap \<Rightarrow> ref \<Rightarrow> bool" where
  "live h r = (r < length (objects h) \<and> i_grid (objects h ! r) < length (lists h))"

section \<open>Properties\<close>

subsection \<open>The concrete games are what the constructor builds\<close>

lemma init_othello4: "init 4 2 True = Inr othello4"
  by code_simp

lemma init_fresh4: "init 4 2 False = Inr fresh4"
  by code_simp

subsection \<open>The walks end\<close>

lemma walk_measure_step:
  assumes "ydir \<noteq> 0 \<or> xdir \<noteq> 0"
    and "0 \<le> fst loc + 2 * ydir" "fst loc + 2 * ydir < int (length g)"
    and "0 \<le> snd loc + 2 * xdir" "snd loc + 2 * xdir < int (length (g ! 0))"
  shows "walk_measure g (fst loc + ydir, snd loc + xdir) ydir xdir < walk_measure g loc ydir xdir"
  using assms unfolding walk_measure_def by auto

lemma check_end_terminates:
  assumes "ydir \<noteq> 0 \<or> xdir \<noteq> 0"
  shows "\<exists>b. check_end g val loc ydir xdir = Some b"
  using assms
proof (induction "walk_measure g loc ydir xdir" arbitrary: loc rule: less_induct)
  case less
  show ?case
  proof (cases "cell_at g (fst loc + ydir) (snd loc + xdir) \<noteq> Some val
      \<and> cell_at g (fst loc + ydir) (snd loc + xdir) \<noteq> None
      \<and> 0 \<le> fst loc + 2 * ydir \<and> fst loc + 2 * ydir < int (length g)
      \<and> 0 \<le> snd loc + 2 * xdir \<and> snd loc + 2 * xdir < int (length (g ! 0))")
    case True
    then have "walk_measure g (fst loc + ydir, snd loc + xdir) ydir xdir < walk_measure g loc ydir xdir"
      using walk_measure_step [of ydir xdir loc g] less.prems by simp
    from less.hyps [OF this less.prems] obtain b where
      "check_end g val (fst loc + ydir, snd loc + xdir) ydir xdir = Some b" by blast
    with True show ?thesis by (subst check_end.simps) auto
  next
    case False
    then show ?thesis by (subst check_end.simps) auto
  qed
qed

subsection \<open>Available moves are always computed; they do not depend on the turn\<close>

lemma av_dir_Some: "\<exists>b. av_dir s t c n = Some b"
  unfolding av_dir_def using check_end_terminates [of "fst n - fst c" "snd n - snd c" "grid s" t c]
  by auto

lemma av_dirs_Some: "\<exists>b. av_dirs s t c ns = Some b"
proof (induction ns)
  case Nil
  show ?case by auto
next
  case (Cons n ns)
  then obtain r where "av_dirs s t c ns = Some r" by blast
  moreover obtain b where "av_dir s t c n = Some b" using av_dir_Some by blast
  ultimately show ?case by simp
qed

lemma av_cells_Some: "\<exists>r. av_cells s t cs = Some r"
proof (induction cs)
  case Nil
  show ?case by auto
next
  case (Cons c cs)
  then obtain r where "av_cells s t cs = Some r" by blast
  moreover obtain b where "av_dirs s t c (neighbours c) = Some b" using av_dirs_Some by blast
  ultimately show ?case by simp
qed

lemma players_av_moves_Some: "\<exists>ms. players_av_moves s t = Some ms"
proof -
  obtain r where "av_cells s t (open_spaces s) = Some r" using av_cells_Some by blast
  then show ?thesis unfolding players_av_moves_def by simp
qed

lemma done_loop_Some: "\<exists>b. done_loop s ps = Some b"
proof (induction ps)
  case Nil
  show ?case by auto
next
  case (Cons p ps)
  then obtain b where "done_loop s ps = Some b" by blast
  moreover obtain ms where "players_av_moves s p = Some ms" using players_av_moves_Some by blast
  ultimately show ?case by auto
qed

lemma done_prop_Some: "\<exists>b. done_prop s = Some b"
  unfolding done_prop_def by (rule done_loop_Some)

lemma av_dir_turn [simp]: "av_dir (s\<lparr>turn := x\<rparr>) t c n = av_dir s t c n"
  unfolding av_dir_def by auto

lemma av_dirs_turn [simp]: "av_dirs (s\<lparr>turn := x\<rparr>) t c ns = av_dirs s t c ns"
  by (induction ns) (simp_all cong: option.case_cong)

lemma av_cells_turn [simp]: "av_cells (s\<lparr>turn := x\<rparr>) t cs = av_cells s t cs"
  by (induction cs) (simp_all cong: option.case_cong)

lemma players_av_moves_turn [simp]:
  "players_av_moves (s\<lparr>turn := x\<rparr>) t = players_av_moves s t"
  unfolding players_av_moves_def open_spaces_def centre_block_def top_left_def by simp

lemma done_loop_turn [simp]: "done_loop (s\<lparr>turn := x\<rparr>) ps = done_loop s ps"
  by (induction ps) (auto split: option.splits)

lemma done_prop_turn [simp]: "done_prop (s\<lparr>turn := x\<rparr>) = done_prop s"
  unfolding done_prop_def by simp

lemma done_loop_False:
  "done_loop s ps = Some False \<Longrightarrow> \<exists>p\<in>set ps. \<exists>ms. players_av_moves s p = Some ms \<and> ms \<noteq> []"
  by (induction ps) (auto split: option.splits if_splits)

lemma done_loop_True:
  "done_loop s ps = Some True \<Longrightarrow> \<forall>p\<in>set ps. players_av_moves s p = Some []"
  by (induction ps) (auto split: option.splits if_splits)

lemma done_prop_False:
  assumes "done_prop s = Some False"
  shows "\<exists>p. 1 \<le> p \<and> p \<le> players s \<and> (\<exists>ms. players_av_moves s p = Some ms \<and> ms \<noteq> [])"
  using done_loop_False [OF assms [unfolded done_prop_def]] by auto

lemma done_prop_True:
  assumes "done_prop s = Some True" "1 \<le> p" "p \<le> players s"
  shows "players_av_moves s p = Some []"
  using done_loop_True [OF assms(1) [unfolded done_prop_def]] assms(2,3) by auto

subsection \<open>The turn change finds the next player who can move\<close>

lemma player_after_succ:
  assumes "0 < P"
  shows "(if player_after P t k = P then 1 else player_after P t k + 1) = player_after P t (k + 1)"
proof -
  have eq: "(t - 1 + (k + 1)) mod P = ((t - 1 + k) mod P + 1) mod P"
    by (simp add: mod_add_left_eq add.assoc)
  have rng: "0 \<le> (t - 1 + k) mod P" "(t - 1 + k) mod P < P"
    using assms by simp_all
  show ?thesis
  proof (cases "(t - 1 + k) mod P + 1 = P")
    case True
    then have "(t - 1 + (k + 1)) mod P = 0" using eq by simp
    with True show ?thesis unfolding player_after_def by simp
  next
    case False
    then have "((t - 1 + k) mod P + 1) mod P = (t - 1 + k) mod P + 1"
      using rng by (intro mod_pos_pos_trivial) auto
    then have "(t - 1 + (k + 1)) mod P = (t - 1 + k) mod P + 1" using eq by simp
    with False show ?thesis unfolding player_after_def by simp
  qed
qed

lemma player_after_0: "1 \<le> t \<Longrightarrow> t \<le> P \<Longrightarrow> player_after P t 0 = t"
  unfolding player_after_def by (simp add: mod_pos_pos_trivial)

lemma player_after_range: "0 < P \<Longrightarrow> 1 \<le> player_after P t k \<and> player_after P t k \<le> P"
  unfolding player_after_def
  using pos_mod_sign [of P "t - 1 + k"] pos_mod_bound [of P "t - 1 + k"] by linarith

lemma player_after_reaches:
  assumes "1 \<le> t" "t \<le> P" "1 \<le> p" "p \<le> P"
  shows "\<exists>m. 1 \<le> m \<and> m \<le> P \<and> player_after P t m = p"
proof (cases "t < p")
  case True
  have "(p - 1) mod P = p - 1" using assms by (simp add: mod_pos_pos_trivial)
  then have "player_after P t (p - t) = p" unfolding player_after_def by simp
  then show ?thesis using True assms by (intro exI [of _ "p - t"]) auto
next
  case False
  have "t - 1 + (p - t + P) = (p - 1) + P" by simp
  then have "(t - 1 + (p - t + P)) mod P = ((p - 1) + P) mod P" by (rule arg_cong)
  also have "\<dots> = (p - 1) mod P" by (rule mod_add_self2)
  also have "\<dots> = p - 1" using assms by (simp add: mod_pos_pos_trivial)
  finally have "player_after P t (p - t + P) = p" unfolding player_after_def by (simp only:)
  then show ?thesis using False assms by (intro exI [of _ "p - t + P"]) auto
qed

lemma change_turn_step:
  assumes "done_prop s = Some False" "0 < players s"
  shows "change_turn (s\<lparr>turn := player_after (players s) t k\<rparr>) =
     (case players_av_moves s (player_after (players s) t (k + 1)) of
        None \<Rightarrow> None
      | Some ms \<Rightarrow> if ms = [] then change_turn (s\<lparr>turn := player_after (players s) t (k + 1)\<rparr>)
                   else Some (s\<lparr>turn := player_after (players s) t (k + 1)\<rparr>))"
proof -
  have nt: "next_turn (s\<lparr>turn := player_after (players s) t k\<rparr>) = player_after (players s) t (k + 1)"
    unfolding next_turn_def using player_after_succ [OF assms(2), of t k] by (simp split: if_splits)
  show ?thesis
    by (subst change_turn.simps) (simp add: assms(1) nt available_moves_def split: option.splits)
qed

lemma change_turn_scan:
  assumes "done_prop s = Some False" "0 < players s"
    and "\<exists>m. j < m \<and> m \<le> j + int n
           \<and> (\<exists>ms. players_av_moves s (player_after (players s) t m) = Some ms \<and> ms \<noteq> [])"
  shows "\<exists>k. j < k \<and> k \<le> j + int n
     \<and> change_turn (s\<lparr>turn := player_after (players s) t j\<rparr>)
         = Some (s\<lparr>turn := player_after (players s) t k\<rparr>)
     \<and> (\<exists>ms. players_av_moves s (player_after (players s) t k) = Some ms \<and> ms \<noteq> [])
     \<and> (\<forall>i. j < i \<and> i < k \<longrightarrow> players_av_moves s (player_after (players s) t i) = Some [])"
  using assms(3)
proof (induction n arbitrary: j)
  case 0
  then show ?case by auto
next
  case (Suc n)
  obtain ms where ms: "players_av_moves s (player_after (players s) t (j + 1)) = Some ms"
    using players_av_moves_Some by blast
  show ?case
  proof (cases "ms = []")
    case False
    have "change_turn (s\<lparr>turn := player_after (players s) t j\<rparr>)
            = Some (s\<lparr>turn := player_after (players s) t (j + 1)\<rparr>)"
      using change_turn_step [OF assms(1,2), of t j] ms False by simp
    moreover have "\<forall>i. j < i \<and> i < j + 1 \<longrightarrow> players_av_moves s (player_after (players s) t i) = Some []"
      by auto
    ultimately show ?thesis using ms False
      by (intro exI [of _ "j + 1"]) auto
  next
    case True
    from Suc.prems obtain m where m: "j < m" "m \<le> j + int (Suc n)"
      "\<exists>ms. players_av_moves s (player_after (players s) t m) = Some ms \<and> ms \<noteq> []" by blast
    have "m \<noteq> j + 1" using m(3) ms True by auto
    then have "\<exists>m. j + 1 < m \<and> m \<le> (j + 1) + int n
        \<and> (\<exists>ms. players_av_moves s (player_after (players s) t m) = Some ms \<and> ms \<noteq> [])"
      using m by (intro exI [of _ m]) auto
    from Suc.IH [OF this] obtain k where k: "j + 1 < k" "k \<le> (j + 1) + int n"
      "change_turn (s\<lparr>turn := player_after (players s) t (j + 1)\<rparr>)
         = Some (s\<lparr>turn := player_after (players s) t k\<rparr>)"
      "\<exists>ms. players_av_moves s (player_after (players s) t k) = Some ms \<and> ms \<noteq> []"
      "\<forall>i. j + 1 < i \<and> i < k \<longrightarrow> players_av_moves s (player_after (players s) t i) = Some []"
      by blast
    have ct: "change_turn (s\<lparr>turn := player_after (players s) t j\<rparr>)
            = Some (s\<lparr>turn := player_after (players s) t k\<rparr>)"
      using change_turn_step [OF assms(1,2), of t j] ms True k(3) by simp
    have "\<forall>i. j < i \<and> i < k \<longrightarrow> players_av_moves s (player_after (players s) t i) = Some []"
    proof (intro allI impI)
      fix i assume "j < i \<and> i < k"
      then consider "i = j + 1" | "j + 1 < i \<and> i < k" by linarith
      then show "players_av_moves s (player_after (players s) t i) = Some []"
        using ms True k(5) by cases auto
    qed
    with ct k(1,2,4) show ?thesis by (intro exI [of _ k]) auto
  qed
qed

lemma change_turn_first:
  assumes "1 \<le> turn s" "turn s \<le> players s" "done_prop s = Some False"
  shows "\<exists>k. 1 \<le> k \<and> k \<le> players s
     \<and> change_turn s = Some (s\<lparr>turn := player_after (players s) (turn s) k\<rparr>)
     \<and> (\<exists>ms. players_av_moves s (player_after (players s) (turn s) k) = Some ms \<and> ms \<noteq> [])
     \<and> (\<forall>i. 1 \<le> i \<and> i < k \<longrightarrow> players_av_moves s (player_after (players s) (turn s) i) = Some [])"
proof -
  have P: "0 < players s" using assms(1,2) by linarith
  obtain p ms where p: "1 \<le> p" "p \<le> players s" "players_av_moves s p = Some ms" "ms \<noteq> []"
    using done_prop_False [OF assms(3)] by blast
  obtain m where m: "1 \<le> m" "m \<le> players s" "player_after (players s) (turn s) m = p"
    using player_after_reaches [OF assms(1,2) p(1,2)] by blast
  have ex: "\<exists>m. 0 < m \<and> m \<le> 0 + int (nat (players s))
      \<and> (\<exists>ms. players_av_moves s (player_after (players s) (turn s) m) = Some ms \<and> ms \<noteq> [])"
    using m p(3,4) P by (intro exI [of _ m]) auto
  have s0: "s\<lparr>turn := player_after (players s) (turn s) 0\<rparr> = s"
    using player_after_0 [OF assms(1,2)] by simp
  from change_turn_scan [OF assms(3) P ex] obtain k where k: "0 < k" "k \<le> 0 + int (nat (players s))"
    "change_turn (s\<lparr>turn := player_after (players s) (turn s) 0\<rparr>)
         = Some (s\<lparr>turn := player_after (players s) (turn s) k\<rparr>)"
    "\<exists>ms. players_av_moves s (player_after (players s) (turn s) k) = Some ms \<and> ms \<noteq> []"
    "\<forall>i. 0 < i \<and> i < k \<longrightarrow> players_av_moves s (player_after (players s) (turn s) i) = Some []"
    by blast
  have "1 \<le> k" "k \<le> players s" using k(1,2) P by auto
  moreover have "change_turn s = Some (s\<lparr>turn := player_after (players s) (turn s) k\<rparr>)"
    using k(3) s0 by simp
  moreover have "\<forall>i. 1 \<le> i \<and> i < k \<longrightarrow> players_av_moves s (player_after (players s) (turn s) i) = Some []"
    using k(5) by auto
  ultimately show ?thesis using k(4) by blast
qed

lemma change_turn_done:
  assumes "done_prop s = Some True"
  shows "change_turn s = Some s"
  by (subst change_turn.simps) (simp add: assms)

subsection \<open>Reading and writing cells of a square grid\<close>

lemma length_set_cell [simp]: "length (set_cell g i j v) = length g"
  unfolding set_cell_def by simp

lemma length_set_cell_row [simp]: "length (set_cell g i j v ! k) = length (g ! k)"
proof (cases "k = nat i")
  case True
  show ?thesis
  proof (cases "nat i < length g")
    case True
    with \<open>k = nat i\<close> show ?thesis unfolding set_cell_def by simp
  next
    case False
    then have "g[nat i := (g ! nat i)[nat j := v]] = g" by (intro list_update_beyond) simp
    then show ?thesis unfolding set_cell_def by simp
  qed
next
  case False
  then show ?thesis unfolding set_cell_def by simp
qed

lemma square_set_cell: "square g sd \<Longrightarrow> square (set_cell g i j v) sd"
  unfolding square_def list_all_length by simp

lemma square_row: "square g sd \<Longrightarrow> k < nat sd \<Longrightarrow> length (g ! k) = nat sd"
  unfolding square_def list_all_length by simp

lemma square_in_grid:
  assumes "square g sd"
  shows "in_grid g c \<longleftrightarrow> 0 \<le> fst c \<and> fst c < sd \<and> 0 \<le> snd c \<and> snd c < sd"
proof (cases "0 < sd")
  case True
  then have "length (g ! 0) = nat sd" using square_row [OF assms, of 0] by simp
  moreover have "length g = nat sd" using assms unfolding square_def by simp
  ultimately show ?thesis using True unfolding in_grid_def by auto
next
  case False
  moreover have "length g = nat sd" using assms unfolding square_def by simp
  ultimately show ?thesis unfolding in_grid_def by auto
qed

lemma in_grid_set_cell:
  "in_grid (set_cell g i j v) c = in_grid g c"
  unfolding in_grid_def by simp

lemma cell_at_set_cell:
  assumes "square g sd" "in_grid g c" "in_grid g c'"
  shows "cell_at (set_cell g (fst c) (snd c) v) (fst c') (snd c')
           = (if c' = c then v else cell_at g (fst c') (snd c'))"
proof -
  have c: "0 \<le> fst c" "fst c < sd" "0 \<le> snd c" "snd c < sd"
    and c': "0 \<le> fst c'" "fst c' < sd" "0 \<le> snd c'" "snd c' < sd"
    using assms square_in_grid [OF assms(1)] by auto
  have len: "length g = nat sd" using assms(1) unfolding square_def by simp
  have row: "length (g ! nat (fst c)) = nat sd" using square_row [OF assms(1)] c by simp
  show ?thesis
  proof (cases "fst c' = fst c")
    case True
    show ?thesis
    proof (cases "snd c' = snd c")
      case True
      with \<open>fst c' = fst c\<close> have "c' = c" by (simp add: prod_eq_iff)
      then show ?thesis unfolding cell_at_def set_cell_def using c len row by simp
    next
      case False
      then have "nat (snd c') \<noteq> nat (snd c)" using c c' by simp
      moreover have "c' \<noteq> c" using False by auto
      ultimately show ?thesis unfolding cell_at_def set_cell_def
        using c len \<open>fst c' = fst c\<close> by simp
    qed
  next
    case False
    then have "nat (fst c') \<noteq> nat (fst c)" using c c' by simp
    moreover have "c' \<noteq> c" using False by auto
    ultimately show ?thesis unfolding cell_at_def set_cell_def by simp
  qed
qed

lemma foreign_cell: "foreign g val c \<longleftrightarrow> (\<exists>w. cell_at g (fst c) (snd c) = Some w \<and> w \<noteq> val)"
  unfolding foreign_def by auto

subsection \<open>Turning one piece over\<close>

lemma flip_one_square:
  assumes "square (fst bg) sd" "square (snd bg) sd"
  shows "square (fst (flip_one bg val r c)) sd \<and> square (snd (flip_one bg val r c)) sd"
  using assms unfolding flip_one_def by (simp add: square_set_cell)

lemma flip_one_same:
  "fst bg = snd bg \<Longrightarrow> fst (flip_one bg val r c) = snd (flip_one bg val r c)"
  unfolding flip_one_def by simp

lemma flip_one_in_grid [simp]: "in_grid (snd (flip_one bg val r c)) x = in_grid (snd bg) x"
  unfolding flip_one_def by (simp add: in_grid_set_cell)

lemma flip_one_cell:
  assumes "square (snd bg) sd" "in_grid (snd bg) n" "in_grid (snd bg) x"
  shows "cell_at (snd (flip_one bg val (fst n) (snd n))) (fst x) (snd x)
     = (if x = n \<and> foreign (snd bg) val n \<and> cell_at (fst bg) (fst n) (snd n) \<noteq> None
        then Some val else cell_at (snd bg) (fst x) (snd x))"
  unfolding flip_one_def foreign_def
  using cell_at_set_cell [OF assms(1,2,3), of "Some val"] by auto

lemma flip_one_only_flips:
  assumes "square (snd bg) sd" "in_grid (snd bg) (along p d 1)"
  shows "only_flips (snd bg) (snd (flip_one bg val (fst (along p d 1)) (snd (along p d 1)))) val p d"
  unfolding only_flips_def
proof (intro allI impI)
  fix x assume x: "in_grid (snd bg) x"
  show "cell_at (snd (flip_one bg val (fst (along p d 1)) (snd (along p d 1)))) (fst x) (snd x)
          = cell_at (snd bg) (fst x) (snd x)
        \<or> (foreign (snd bg) val x
            \<and> cell_at (snd (flip_one bg val (fst (along p d 1)) (snd (along p d 1)))) (fst x) (snd x) = Some val
            \<and> (\<exists>k. 1 \<le> k \<and> x = along p d k))"
    using flip_one_cell [OF assms(1,2) x, of val] by (cases "x = along p d 1") auto
qed

lemma along_step: "along (along p d 1) d k = along p d (k + 1)"
  unfolding along_def by (simp add: algebra_simps)

lemma along_1: "along p (ydir, xdir) 1 = (fst p + ydir, snd p + xdir)"
  unfolding along_def by simp

lemma only_flips_trans:
  assumes "only_flips g g1 val p d" "only_flips g1 g2 val (along p d 1) d"
    and "\<And>x. in_grid g1 x = in_grid g x"
  shows "only_flips g g2 val p d"
  unfolding only_flips_def
proof (intro allI impI)
  fix x assume x: "in_grid g x"
  then have x1: "in_grid g1 x" using assms(3) by simp
  from assms(1) x have a: "cell_at g1 (fst x) (snd x) = cell_at g (fst x) (snd x)
        \<or> (foreign g val x \<and> cell_at g1 (fst x) (snd x) = Some val \<and> (\<exists>k. 1 \<le> k \<and> x = along p d k))"
    unfolding only_flips_def by blast
  from assms(2) x1 have b: "cell_at g2 (fst x) (snd x) = cell_at g1 (fst x) (snd x)
        \<or> (foreign g1 val x \<and> cell_at g2 (fst x) (snd x) = Some val
            \<and> (\<exists>k. 1 \<le> k \<and> x = along (along p d 1) d k))"
    unfolding only_flips_def by blast
  have ray: "(\<exists>k. 1 \<le> k \<and> x = along (along p d 1) d k) \<Longrightarrow> (\<exists>k. 1 \<le> k \<and> x = along p d k)"
  proof -
    assume "\<exists>k. 1 \<le> k \<and> x = along (along p d 1) d k"
    then obtain k where "1 \<le> k" "x = along (along p d 1) d k" by blast
    then have "1 \<le> k + 1 \<and> x = along p d (k + 1)" using along_step by simp
    then show ?thesis by blast
  qed
  show "cell_at g2 (fst x) (snd x) = cell_at g (fst x) (snd x)
        \<or> (foreign g val x \<and> cell_at g2 (fst x) (snd x) = Some val \<and> (\<exists>k. 1 \<le> k \<and> x = along p d k))"
  proof (cases "cell_at g1 (fst x) (snd x) = cell_at g (fst x) (snd x)")
    case True
    then have "foreign g1 val x = foreign g val x" unfolding foreign_def by simp
    with b ray True show ?thesis by metis
  next
    case False
    with a have f: "foreign g val x" "cell_at g1 (fst x) (snd x) = Some val"
      "\<exists>k. 1 \<le> k \<and> x = along p d k" by blast+
    then have "\<not> foreign g1 val x" unfolding foreign_def by simp
    with b have "cell_at g2 (fst x) (snd x) = Some val" using f(2) by metis
    with f show ?thesis by blast
  qed
qed

subsection \<open>The flipping walk\<close>

lemma flip_one_length [simp]:
  "length (snd (flip_one bg val r c)) = length (snd bg)"
  "length (snd (flip_one bg val r c) ! k) = length (snd bg ! k)"
  unfolding flip_one_def by simp_all

lemma flip_pieces_partial:
  assumes "flip_pieces bg val start ydir xdir = Some bg'"
    and "square (fst bg) sd" "square (snd bg) sd"
    and "in_grid (snd bg) (along start (ydir, xdir) 1)"
  shows "square (fst bg') sd \<and> square (snd bg') sd
     \<and> (fst bg = snd bg \<longrightarrow> fst bg' = snd bg')
     \<and> only_flips (snd bg) (snd bg') val start (ydir, xdir)"
  using assms
proof (induction rule: flip_pieces.raw_induct [rotated, consumes 1, case_names step])
  case (step flip_pieces bg val start ydir xdir bga)
  let ?n = "along start (ydir, xdir) 1"
  let ?bg1 = "flip_one bg val (fst start + ydir) (snd start + xdir)"
  have n: "?n = (fst start + ydir, snd start + xdir)" by (rule along_1)
  have sq1: "square (fst ?bg1) sd" "square (snd ?bg1) sd"
    using flip_one_square [OF step.prems(1,2)] by simp_all
  have same1: "fst bg = snd bg \<longrightarrow> fst ?bg1 = snd ?bg1"
    using flip_one_same by blast
  have of1: "only_flips (snd bg) (snd ?bg1) val start (ydir, xdir)"
    using flip_one_only_flips [OF step.prems(2,3), of val] n by simp
  show ?case
  proof (cases "bga = ?bg1")
    case True
    then show ?thesis using sq1 same1 of1 by simp
  next
    case False
    with step.hyps have guard: "0 \<le> fst start + 2 * ydir"
      "fst start + 2 * ydir < int (length (snd ?bg1))"
      "0 \<le> snd start + 2 * xdir"
      "snd start + 2 * xdir < int (length (snd ?bg1 ! 0))"
      and rec: "flip_pieces ?bg1 val (fst start + ydir, snd start + xdir) ydir xdir = Some bga"
      by (auto split: if_splits option.splits)
    have "in_grid (snd ?bg1) (along (fst start + ydir, snd start + xdir) (ydir, xdir) 1)"
      unfolding in_grid_def along_def using guard by (simp add: algebra_simps)
    from step.IH [OF rec sq1 this]
    have r: "square (fst bga) sd" "square (snd bga) sd"
      "fst ?bg1 = snd ?bg1 \<longrightarrow> fst bga = snd bga"
      "only_flips (snd ?bg1) (snd bga) val (fst start + ydir, snd start + xdir) (ydir, xdir)"
      by simp_all
    have "only_flips (snd bg) (snd bga) val start (ydir, xdir)"
      using only_flips_trans [OF of1, of "snd bga"] r(4) n by simp
    then show ?thesis using r same1 by simp
  qed
qed

lemma flip_pieces_terminates:
  assumes "ydir \<noteq> 0 \<or> xdir \<noteq> 0"
  shows "\<exists>bg'. flip_pieces bg val start ydir xdir = Some bg'"
  using assms
proof (induction "walk_measure (snd bg) start ydir xdir" arbitrary: bg start rule: less_induct)
  case less
  let ?bg1 = "flip_one bg val (fst start + ydir) (snd start + xdir)"
  have len: "length (snd ?bg1) = length (snd bg)" "length (snd ?bg1 ! 0) = length (snd bg ! 0)"
    by simp_all
  have wm: "\<And>loc. walk_measure (snd ?bg1) loc ydir xdir = walk_measure (snd bg) loc ydir xdir"
    unfolding walk_measure_def by simp
  obtain b where b: "check_end (snd ?bg1) val (fst start + ydir, snd start + xdir) ydir xdir = Some b"
    using check_end_terminates [OF less.prems] by blast
  show ?case
  proof (cases "0 \<le> fst start + 2 * ydir \<and> fst start + 2 * ydir < int (length (snd ?bg1))
      \<and> 0 \<le> snd start + 2 * xdir \<and> snd start + 2 * xdir < int (length (snd ?bg1 ! 0)) \<and> b")
    case True
    then have "walk_measure (snd bg) (fst start + ydir, snd start + xdir) ydir xdir
        < walk_measure (snd bg) start ydir xdir"
      using walk_measure_step [of ydir xdir start "snd bg"] less.prems len by simp
    then have "walk_measure (snd ?bg1) (fst start + ydir, snd start + xdir) ydir xdir
        < walk_measure (snd bg) start ydir xdir" using wm by simp
    from less.hyps [OF this less.prems] obtain bg' where
      "flip_pieces ?bg1 val (fst start + ydir, snd start + xdir) ydir xdir = Some bg'" by blast
    with True b show ?thesis by (subst flip_pieces.simps) auto
  next
    case False
    with b show ?thesis by (subst flip_pieces.simps) auto
  qed
qed

subsection \<open>Outflanked runs pass the test of check-end\<close>

lemma outflanked_iff:
  "outflanked g val p d k \<longleftrightarrow>
     (\<forall>j::nat. 1 \<le> j \<and> j \<le> k \<longrightarrow> in_grid g (along p d (int j)) \<and> foreign g val (along p d (int j)))
     \<and> in_grid g (along p d (int k + 1))
     \<and> cell_at g (fst (along p d (int k + 1))) (snd (along p d (int k + 1))) = Some val"
  unfolding outflanked_def list_all_iff by auto

lemma outflanked_first:
  assumes "outflanked g val p d k"
  shows "in_grid g (along p d 1)"
proof (cases k)
  case 0
  with assms show ?thesis unfolding outflanked_iff by simp
next
  case (Suc k')
  then have "1 \<le> (1::nat) \<and> (1::nat) \<le> k" by simp
  with assms have "in_grid g (along p d (int 1))" unfolding outflanked_iff by blast
  then show ?thesis by simp
qed

lemma outflanked_Suc:
  assumes "outflanked g val p d (Suc k)"
  shows "foreign g val (along p d 1) \<and> outflanked g val (along p d 1) d k"
proof -
  have a: "\<And>j::nat. 1 \<le> j \<Longrightarrow> j \<le> Suc k \<Longrightarrow>
      in_grid g (along p d (int j)) \<and> foreign g val (along p d (int j))"
    using assms unfolding outflanked_iff by blast
  have "foreign g val (along p d 1)" using a [of 1] by simp
  moreover have "outflanked g val (along p d 1) d k"
    unfolding outflanked_iff along_step
  proof (intro conjI allI impI)
    fix j :: nat assume "1 \<le> j \<and> j \<le> k"
    then have "in_grid g (along p d (int (Suc j))) \<and> foreign g val (along p d (int (Suc j)))"
      by (intro a) auto
    then show "in_grid g (along p d (int j + 1))" "foreign g val (along p d (int j + 1))"
      by (simp_all add: add.commute)
  next
    show "in_grid g (along p d (int k + 1 + 1))"
      "cell_at g (fst (along p d (int k + 1 + 1))) (snd (along p d (int k + 1 + 1))) = Some val"
      using assms unfolding outflanked_iff by (simp_all add: add.commute)
  qed
  ultimately show ?thesis by blast
qed

lemma in_grid_guard:
  "in_grid g (along (along p (ydir, xdir) 1) (ydir, xdir) 1) \<longleftrightarrow>
     0 \<le> fst p + 2 * ydir \<and> fst p + 2 * ydir < int (length g)
     \<and> 0 \<le> snd p + 2 * xdir \<and> snd p + 2 * xdir < int (length (g ! 0))"
  unfolding in_grid_def along_def by (simp add: algebra_simps)

lemma check_end_outflanked:
  assumes "outflanked g val p (ydir, xdir) k"
  shows "check_end g val p ydir xdir = Some True"
  using assms
proof (induction k arbitrary: p)
  case 0
  then have "cell_at g (fst p + ydir) (snd p + xdir) = Some val"
    unfolding outflanked_iff along_def by simp
  then show ?case by (subst check_end.simps) simp
next
  case (Suc k)
  let ?n = "along p (ydir, xdir) 1"
  have n: "?n = (fst p + ydir, snd p + xdir)" by (rule along_1)
  from outflanked_Suc [OF Suc.prems]
  have f: "foreign g val ?n" and o: "outflanked g val ?n (ydir, xdir) k" by simp_all
  have "in_grid g (along ?n (ydir, xdir) 1)" using outflanked_first [OF o] .
  then have guard: "0 \<le> fst p + 2 * ydir \<and> fst p + 2 * ydir < int (length g)
     \<and> 0 \<le> snd p + 2 * xdir \<and> snd p + 2 * xdir < int (length (g ! 0))"
    using in_grid_guard by blast
  have rec: "check_end g val (fst p + ydir, snd p + xdir) ydir xdir = Some True"
    using Suc.IH [OF o] n by simp
  have c: "cell_at g (fst p + ydir) (snd p + xdir) \<noteq> Some val"
    "cell_at g (fst p + ydir) (snd p + xdir) \<noteq> None"
    using f n unfolding foreign_def by simp_all
  show ?case using c guard rec by (subst check_end.simps) simp
qed

lemma along_neq:
  assumes "fst d \<noteq> 0 \<or> snd d \<noteq> 0" "j \<noteq> 0"
  shows "along p d j \<noteq> p"
  using assms unfolding along_def by (auto simp: prod_eq_iff)

subsection \<open>The flipping walk turns over an outflanked run\<close>

lemma outflanked_cong:
  assumes "outflanked g val p d k"
    and "\<And>x. in_grid g' x = in_grid g x"
    and "\<And>j::nat. 1 \<le> j \<Longrightarrow> j \<le> Suc k \<Longrightarrow>
           cell_at g' (fst (along p d (int j))) (snd (along p d (int j)))
             = cell_at g (fst (along p d (int j))) (snd (along p d (int j)))"
  shows "outflanked g' val p d k"
proof -
  have t: "cell_at g' (fst (along p d (int k + 1))) (snd (along p d (int k + 1)))
             = cell_at g (fst (along p d (int k + 1))) (snd (along p d (int k + 1)))"
    using assms(3) [of "Suc k"] by (simp add: add.commute)
  show ?thesis
    unfolding outflanked_iff
  proof (intro conjI allI impI)
    fix j :: nat assume j: "1 \<le> j \<and> j \<le> k"
    with assms(1) have "in_grid g (along p d (int j))" "foreign g val (along p d (int j))"
      unfolding outflanked_iff by blast+
    moreover have "cell_at g' (fst (along p d (int j))) (snd (along p d (int j)))
             = cell_at g (fst (along p d (int j))) (snd (along p d (int j)))"
      using assms(3) [of j] j by simp
    ultimately show "in_grid g' (along p d (int j))" "foreign g' val (along p d (int j))"
      using assms(2) unfolding foreign_def by simp_all
  next
    show "in_grid g' (along p d (int k + 1))"
      using assms(1,2) unfolding outflanked_iff by simp
    show "cell_at g' (fst (along p d (int k + 1))) (snd (along p d (int k + 1))) = Some val"
      using assms(1) t unfolding outflanked_iff by simp
  qed
qed

lemma outflanked_in_grid:
  assumes "outflanked g val p d k" "1 \<le> j" "j \<le> Suc k"
  shows "in_grid g (along p d (int j))"
proof (cases "j = Suc k")
  case True
  then show ?thesis using assms(1) unfolding outflanked_iff by (simp add: add.commute)
next
  case False
  then show ?thesis using assms unfolding outflanked_iff by auto
qed

lemma flip_pieces_run:
  assumes "outflanked (snd bg) val p (ydir, xdir) k"
    and "fst bg = snd bg" "square (snd bg) sd"
    and "ydir \<noteq> 0 \<or> xdir \<noteq> 0"
  shows "\<exists>bg'. flip_pieces bg val p ydir xdir = Some bg'
     \<and> (\<forall>j::nat. 1 \<le> j \<and> j \<le> k \<longrightarrow>
           cell_at (snd bg') (fst (along p (ydir, xdir) (int j))) (snd (along p (ydir, xdir) (int j)))
             = Some val)"
  using assms(1,2,3)
proof (induction k arbitrary: bg p)
  case 0
  then show ?case using flip_pieces_terminates [OF assms(4)] by auto
next
  case (Suc k)
  let ?d = "(ydir, xdir)"
  let ?n = "along p ?d 1"
  let ?bg1 = "flip_one bg val (fst p + ydir) (snd p + xdir)"
  have n: "?n = (fst p + ydir, snd p + xdir)" by (rule along_1)
  have dnz: "fst ?d \<noteq> 0 \<or> snd ?d \<noteq> 0" using assms(4) by simp
  from outflanked_Suc [OF Suc.prems(1)]
  have f: "foreign (snd bg) val ?n" and o: "outflanked (snd bg) val ?n ?d k" by simp_all
  have n_in: "in_grid (snd bg) ?n" using outflanked_first [OF Suc.prems(1)] .
  have sq: "square (fst bg) sd" using Suc.prems(2,3) by simp
  have board_n: "cell_at (fst bg) (fst ?n) (snd ?n) \<noteq> None"
    using f Suc.prems(2) unfolding foreign_def by simp
  have cell1: "\<And>x. in_grid (snd bg) x \<Longrightarrow>
      cell_at (snd ?bg1) (fst x) (snd x) = (if x = ?n then Some val else cell_at (snd bg) (fst x) (snd x))"
    using flip_one_cell [OF Suc.prems(3) n_in, of _ val] f board_n n by simp
  have o1: "outflanked (snd ?bg1) val ?n ?d k"
  proof (rule outflanked_cong [OF o])
    show "\<And>x. in_grid (snd ?bg1) x = in_grid (snd bg) x" by simp
  next
    fix j :: nat assume j: "1 \<le> j" "j \<le> Suc k"
    have "in_grid (snd bg) (along ?n ?d (int j))" using outflanked_in_grid [OF o j] .
    moreover have "along ?n ?d (int j) \<noteq> ?n" using along_neq [OF dnz, of "int j"] j by simp
    ultimately show "cell_at (snd ?bg1) (fst (along ?n ?d (int j))) (snd (along ?n ?d (int j)))
        = cell_at (snd bg) (fst (along ?n ?d (int j))) (snd (along ?n ?d (int j)))"
      using cell1 by simp
  qed
  have same1: "fst ?bg1 = snd ?bg1" using flip_one_same [OF Suc.prems(2)] .
  have sq1: "square (fst ?bg1) sd" "square (snd ?bg1) sd"
    using flip_one_square [OF sq Suc.prems(3)] by simp_all
  from Suc.IH [OF o1 [unfolded n] same1 sq1(2)] n obtain bg' where
    rec: "flip_pieces ?bg1 val (fst p + ydir, snd p + xdir) ydir xdir = Some bg'"
    and cells: "\<forall>j::nat. 1 \<le> j \<and> j \<le> k \<longrightarrow>
           cell_at (snd bg') (fst (along ?n ?d (int j))) (snd (along ?n ?d (int j))) = Some val"
    by auto
  have "in_grid (snd ?bg1) (along ?n ?d 1)" using outflanked_first [OF o1] .
  then have guard: "0 \<le> fst p + 2 * ydir \<and> fst p + 2 * ydir < int (length (snd ?bg1))
     \<and> 0 \<le> snd p + 2 * xdir \<and> snd p + 2 * xdir < int (length (snd ?bg1 ! 0))"
    using in_grid_guard by blast
  have ce: "check_end (snd ?bg1) val (fst p + ydir, snd p + xdir) ydir xdir = Some True"
    using check_end_outflanked [OF o1] n by simp
  have eq: "flip_pieces bg val p ydir xdir = Some bg'"
    using guard ce rec by (subst flip_pieces.simps) simp
  have of: "only_flips (snd ?bg1) (snd bg') val (fst p + ydir, snd p + xdir) ?d"
    using flip_pieces_partial [OF rec sq1] outflanked_first [OF o1] n by simp
  have n1: "cell_at (snd ?bg1) (fst ?n) (snd ?n) = Some val" using cell1 [OF n_in] by simp
  then have "\<not> foreign (snd ?bg1) val ?n" unfolding foreign_def by simp
  moreover have "in_grid (snd ?bg1) ?n" using n_in by simp
  ultimately have first: "cell_at (snd bg') (fst ?n) (snd ?n) = Some val"
    using of n1 unfolding only_flips_def by metis
  have "\<forall>j::nat. 1 \<le> j \<and> j \<le> Suc k \<longrightarrow>
           cell_at (snd bg') (fst (along p ?d (int j))) (snd (along p ?d (int j))) = Some val"
  proof (intro allI impI)
    fix j :: nat assume j: "1 \<le> j \<and> j \<le> Suc k"
    show "cell_at (snd bg') (fst (along p ?d (int j))) (snd (along p ?d (int j))) = Some val"
    proof (cases "j = 1")
      case True
      then show ?thesis using first by simp
    next
      case False
      then obtain j' where j': "j = Suc j'" "1 \<le> j'" "j' \<le> k" using j by (cases j) auto
      then have "along p ?d (int j) = along ?n ?d (int j')"
        using along_step [of p ?d "int j'"] by (simp add: add.commute)
      then show ?thesis using cells j' by simp
    qed
  qed
  with eq show ?case by blast
qed

subsection \<open>Neighbours and rays\<close>

lemma upto_3: "[a - 1..a + 1] = [a - 1, a, a + (1::int)]"
proof -
  have "[a - 1..a + 1] = (a - 1) # [a..a + 1]" by (subst upto_rec1) simp_all
  also have "[a..a + 1] = a # [a + 1..a + 1]" by (subst upto_rec1) simp_all
  finally show ?thesis by simp
qed

lemma neighbours_eq:
  "neighbours p =
     [(fst p - 1, snd p - 1), (fst p - 1, snd p), (fst p - 1, snd p + 1),
      (fst p, snd p - 1), (fst p, snd p), (fst p, snd p + 1),
      (fst p + 1, snd p - 1), (fst p + 1, snd p), (fst p + 1, snd p + 1)]"
  unfolding neighbours_def upto_3 by simp

lemma distinct_neighbours: "distinct (neighbours p)"
  unfolding neighbours_eq by (cases p) simp

lemma unit_mult_eq:
  fixes a b k j :: int
  assumes "a \<in> {-1, 0, 1}" "b \<in> {-1, 0, 1}" "1 \<le> k" "1 \<le> j" "k * a = j * b"
  shows "a = b"
proof -
  from assms(1) consider "a = -1" | "a = 0" | "a = 1" by auto
  then show ?thesis
  proof cases
    case 1
    from assms(2) consider "b = -1" | "b = 0" | "b = 1" by auto
    then show ?thesis using 1 assms(3,4,5) by cases simp_all
  next
    case 2
    from assms(2) consider "b = -1" | "b = 0" | "b = 1" by auto
    then show ?thesis using 2 assms(3,4,5) by cases simp_all
  next
    case 3
    from assms(2) consider "b = -1" | "b = 0" | "b = 1" by auto
    then show ?thesis using 3 assms(3,4,5) by cases simp_all
  qed
qed

lemma rays_disjoint:
  assumes "unit_dir d" "unit_dir d'" "1 \<le> k" "1 \<le> j" "along p d k = along p d' j"
  shows "d = d'"
proof -
  have a: "k * fst d = j * fst d'" "k * snd d = j * snd d'"
    using assms(5) unfolding along_def by simp_all
  have u: "fst d \<in> {-1, 0, 1}" "snd d \<in> {-1, 0, 1}" "fst d' \<in> {-1, 0, 1}" "snd d' \<in> {-1, 0, 1}"
    using assms(1,2) unfolding unit_dir_def by simp_all
  have "fst d = fst d'" using unit_mult_eq [OF u(1,3) assms(3,4) a(1)] .
  moreover have "snd d = snd d'" using unit_mult_eq [OF u(2,4) assms(3,4) a(2)] .
  ultimately show ?thesis by (simp add: prod_eq_iff)
qed

lemma only_flips_refl: "only_flips g g val p d"
  unfolding only_flips_def by simp

lemma near_iff:
  fixes a r :: int
  shows "a - r \<in> {-1, 0, 1} \<longleftrightarrow> r - 1 \<le> a \<and> a \<le> r + 1"
proof
  assume "a - r \<in> {-1, 0, 1}"
  then consider "a - r = -1" | "a - r = 0" | "a - r = 1" by blast
  then show "r - 1 \<le> a \<and> a \<le> r + 1" by cases linarith+
next
  assume "r - 1 \<le> a \<and> a \<le> r + 1"
  then have "a - r = -1 \<or> a - r = 0 \<or> a - r = 1" by linarith
  then show "a - r \<in> {-1, 0, 1}" by blast
qed

lemma neighbours_set:
  "n \<in> set (neighbours p) \<longleftrightarrow>
     fst p - 1 \<le> fst n \<and> fst n \<le> fst p + 1 \<and> snd p - 1 \<le> snd n \<and> snd n \<le> snd p + 1"
proof -
  have "set (neighbours p) = {fst p - 1..fst p + 1} \<times> {snd p - 1..snd p + 1}"
    unfolding neighbours_def by auto
  then show ?thesis by (cases n) simp
qed

lemma neighbours_near:
  "n \<in> set (neighbours p) \<longleftrightarrow> fst n - fst p \<in> {-1, 0, 1} \<and> snd n - snd p \<in> {-1, 0, 1}"
  unfolding neighbours_set near_iff by blast

subsection \<open>One direction of a move\<close>

lemma only_flips_captures: "only_flips g g' val p d \<Longrightarrow> only_captures g g' val"
  unfolding only_flips_def only_captures_def by blast

lemma only_captures_refl: "only_captures g g val"
  unfolding only_captures_def by simp

lemma only_captures_trans:
  assumes "only_captures g g1 val" "only_captures g1 g2 val"
    and "\<And>x. in_grid g1 x = in_grid g x"
  shows "only_captures g g2 val"
  unfolding only_captures_def
proof (intro allI impI)
  fix x assume x: "in_grid g x"
  then have x1: "in_grid g1 x" using assms(3) by simp
  from assms(1) x have a: "cell_at g1 (fst x) (snd x) = cell_at g (fst x) (snd x)
        \<or> (foreign g val x \<and> cell_at g1 (fst x) (snd x) = Some val)"
    unfolding only_captures_def by blast
  from assms(2) x1 have b: "cell_at g2 (fst x) (snd x) = cell_at g1 (fst x) (snd x)
        \<or> (foreign g1 val x \<and> cell_at g2 (fst x) (snd x) = Some val)"
    unfolding only_captures_def by blast
  show "cell_at g2 (fst x) (snd x) = cell_at g (fst x) (snd x)
        \<or> (foreign g val x \<and> cell_at g2 (fst x) (snd x) = Some val)"
  proof (cases "cell_at g1 (fst x) (snd x) = cell_at g (fst x) (snd x)")
    case True
    then have "foreign g1 val x = foreign g val x" unfolding foreign_def by simp
    with b True show ?thesis by metis
  next
    case False
    with a have f: "foreign g val x" "cell_at g1 (fst x) (snd x) = Some val" by blast+
    then have "\<not> foreign g1 val x" unfolding foreign_def by simp
    with b have "cell_at g2 (fst x) (snd x) = Some val" using f(2) by metis
    with f show ?thesis by blast
  qed
qed

lemma square_same_in_grid:
  "square g sd \<Longrightarrow> square g' sd \<Longrightarrow> in_grid g' x = in_grid g x"
  using square_in_grid by blast

lemma flip_dir_props:
  assumes "square (board s) (side s)" "square (grid s) (side s)"
  shows "\<exists>s'. flip_dir s p n = Some s'
     \<and> s' = s\<lparr>board := board s', grid := grid s'\<rparr>
     \<and> square (board s') (side s) \<and> square (grid s') (side s)
     \<and> (board s = grid s \<longrightarrow> board s' = grid s')
     \<and> only_flips (grid s) (grid s') (turn s) p (fst n - fst p, snd n - snd p)"
proof (cases "0 \<le> fst n \<and> fst n < side s \<and> 0 \<le> snd n \<and> snd n < side s
         \<and> (fst n \<noteq> fst p \<or> snd n \<noteq> snd p)")
  case False
  then have "flip_dir s p n = Some s" unfolding flip_dir_def by auto
  then show ?thesis using assms only_flips_refl by auto
next
  case True
  let ?dy = "fst n - fst p" and ?dx = "snd n - snd p"
  have nz: "?dy \<noteq> 0 \<or> ?dx \<noteq> 0" using True by auto
  obtain b where b: "check_end (grid s) (turn s) p ?dy ?dx = Some b"
    using check_end_terminates [OF nz] by blast
  show ?thesis
  proof (cases "b \<and> (othello s \<or> num_moves s \<ge> players s * players s)")
    case False
    then have "flip_dir s p n = Some s"
      unfolding flip_dir_def piece_differs_def using True b by auto
    then show ?thesis using assms only_flips_refl by auto
  next
    case flip: True
    obtain bg where bg: "flip_pieces (board s, grid s) (turn s) p ?dy ?dx = Some bg"
      using flip_pieces_terminates [OF nz] by blast
    have "along p (?dy, ?dx) 1 = n" unfolding along_def by simp
    moreover have "in_grid (grid s) n" using True square_in_grid [OF assms(2)] by simp
    ultimately have "in_grid (snd (board s, grid s)) (along p (?dy, ?dx) 1)" by simp
    from flip_pieces_partial [OF bg _ _ this, of "side s"] assms
    have r: "square (fst bg) (side s)" "square (snd bg) (side s)"
      "board s = grid s \<longrightarrow> fst bg = snd bg"
      "only_flips (grid s) (snd bg) (turn s) p (?dy, ?dx)" by simp_all
    have "flip_dir s p n = Some (s\<lparr>board := fst bg, grid := snd bg\<rparr>)"
      unfolding flip_dir_def piece_differs_def using True b flip bg by simp
    then show ?thesis using r by simp
  qed
qed

subsection \<open>All directions of a move\<close>

lemma flip_dir_fields:
  assumes "square (board s) (side s)" "square (grid s) (side s)"
  shows "\<exists>s'. flip_dir s p n = Some s'
     \<and> side s' = side s \<and> players s' = players s \<and> othello s' = othello s
     \<and> turn s' = turn s \<and> num_moves s' = num_moves s
     \<and> square (board s') (side s) \<and> square (grid s') (side s)
     \<and> (board s = grid s \<longrightarrow> board s' = grid s')
     \<and> only_flips (grid s) (grid s') (turn s) p (fst n - fst p, snd n - snd p)"
proof -
  from flip_dir_props [OF assms, of p n] obtain s' where s': "flip_dir s p n = Some s'"
    "s' = s\<lparr>board := board s', grid := grid s'\<rparr>"
    "square (board s') (side s)" "square (grid s') (side s)"
    "board s = grid s \<longrightarrow> board s' = grid s'"
    "only_flips (grid s) (grid s') (turn s) p (fst n - fst p, snd n - snd p)" by blast
  have "side s' = side s" using arg_cong [OF s'(2), of side] by simp
  moreover have "players s' = players s" using arg_cong [OF s'(2), of players] by simp
  moreover have "othello s' = othello s" using arg_cong [OF s'(2), of othello] by simp
  moreover have "turn s' = turn s" using arg_cong [OF s'(2), of turn] by simp
  moreover have "num_moves s' = num_moves s" using arg_cong [OF s'(2), of num_moves] by simp
  ultimately show ?thesis using s'(1,3,4,5,6) by blast
qed

lemma flip_dirs_props:
  assumes "square (board s) (side s)" "square (grid s) (side s)"
  shows "\<exists>s'. flip_dirs s p ns = Some s'
     \<and> side s' = side s \<and> players s' = players s \<and> othello s' = othello s
     \<and> turn s' = turn s \<and> num_moves s' = num_moves s
     \<and> square (board s') (side s) \<and> square (grid s') (side s)
     \<and> (board s = grid s \<longrightarrow> board s' = grid s')
     \<and> only_captures (grid s) (grid s') (turn s)"
  using assms
proof (induction ns arbitrary: s)
  case Nil
  then show ?case using only_captures_refl by simp
next
  case (Cons n ns)
  from flip_dir_fields [OF Cons.prems, of p n] obtain s1 where s1: "flip_dir s p n = Some s1"
    "side s1 = side s" "players s1 = players s" "othello s1 = othello s"
    "turn s1 = turn s" "num_moves s1 = num_moves s"
    "square (board s1) (side s)" "square (grid s1) (side s)"
    "board s = grid s \<longrightarrow> board s1 = grid s1"
    "only_flips (grid s) (grid s1) (turn s) p (fst n - fst p, snd n - snd p)" by blast
  have sq1: "square (board s1) (side s1)" "square (grid s1) (side s1)" using s1(2,7,8) by simp_all
  from Cons.IH [OF sq1] obtain s' where s': "flip_dirs s1 p ns = Some s'"
    "side s' = side s1" "players s' = players s1" "othello s' = othello s1"
    "turn s' = turn s1" "num_moves s' = num_moves s1"
    "square (board s') (side s1)" "square (grid s') (side s1)"
    "board s1 = grid s1 \<longrightarrow> board s' = grid s'"
    "only_captures (grid s1) (grid s') (turn s1)" by blast
  have "only_captures (grid s) (grid s') (turn s)"
  proof (rule only_captures_trans)
    show "only_captures (grid s) (grid s1) (turn s)" using only_flips_captures [OF s1(10)] .
    show "only_captures (grid s1) (grid s') (turn s)" using s'(10) s1(5) by simp
    show "\<And>x. in_grid (grid s1) x = in_grid (grid s) x"
      using square_same_in_grid [OF Cons.prems(2) s1(8)] by simp
  qed
  moreover have "flip_dirs s p (n # ns) = Some s'" using s1(1) s'(1) by simp
  ultimately show ?case using s1 s' by auto
qed

subsection \<open>A move in bounds returns\<close>

lemma change_turn_returns:
  assumes "1 \<le> turn s" "turn s \<le> players s"
  shows "\<exists>s'. change_turn s = Some s' \<and> s' = s\<lparr>turn := turn s'\<rparr>
     \<and> 1 \<le> turn s' \<and> turn s' \<le> players s"
proof -
  obtain d where d: "done_prop s = Some d" using done_prop_Some by blast
  show ?thesis
  proof (cases d)
    case True
    then have "change_turn s = Some s" using change_turn_done d by simp
    then show ?thesis using assms by simp
  next
    case False
    with d have "done_prop s = Some False" by simp
    from change_turn_first [OF assms this] obtain k where
      k: "change_turn s = Some (s\<lparr>turn := player_after (players s) (turn s) k\<rparr>)" by blast
    have "0 < players s" using assms by linarith
    from player_after_range [OF this, of "turn s" k] k show ?thesis by simp
  qed
qed

lemma place_piece_props:
  assumes "square (board s) (side s)" "square (grid s) (side s)"
  shows "side (place_piece s p) = side s \<and> players (place_piece s p) = players s
     \<and> othello (place_piece s p) = othello s \<and> turn (place_piece s p) = turn s
     \<and> num_moves (place_piece s p) = num_moves s
     \<and> square (board (place_piece s p)) (side s) \<and> square (grid (place_piece s p)) (side s)"
  using assms unfolding place_piece_def add_piece_def
  by (auto simp: square_set_cell split: prod.splits)

lemma place_piece_same:
  assumes "board s = grid s"
  shows "board (place_piece s p) = grid (place_piece s p)"
  using assms unfolding place_piece_def add_piece_def
  by (auto split: prod.splits)

lemma apply_move_returns:
  assumes "wf_state s"
    and "0 \<le> fst p" "fst p < side s" "0 \<le> snd p" "snd p < side s"
  shows "\<exists>s2 s'. flip_dirs (place_piece s p) p (neighbours p) = Some s2
     \<and> change_turn (s2\<lparr>num_moves := num_moves s + 1\<rparr>) = Some s'
     \<and> apply_move s p = Some (Inr s')
     \<and> s' = s2\<lparr>num_moves := num_moves s + 1, turn := turn s'\<rparr>
     \<and> side s2 = side s \<and> players s2 = players s \<and> othello s2 = othello s
     \<and> turn s2 = turn s \<and> num_moves s2 = num_moves s
     \<and> square (board s2) (side s) \<and> square (grid s2) (side s)
     \<and> (board s = grid s \<longrightarrow> board s2 = grid s2)
     \<and> only_captures (grid (place_piece s p)) (grid s2) (turn s)
     \<and> 1 \<le> turn s' \<and> turn s' \<le> players s"
proof -
  let ?s1 = "place_piece s p"
  have sq: "square (board s) (side s)" "square (grid s) (side s)"
    using assms(1) unfolding wf_state_def by simp_all
  note pp = place_piece_props [OF sq, of p]
  have sq1: "square (board ?s1) (side ?s1)" "square (grid ?s1) (side ?s1)" using pp by simp_all
  from flip_dirs_props [OF sq1, of p "neighbours p"] obtain s2 where
    s2: "flip_dirs ?s1 p (neighbours p) = Some s2"
    "side s2 = side ?s1" "players s2 = players ?s1" "othello s2 = othello ?s1"
    "turn s2 = turn ?s1" "num_moves s2 = num_moves ?s1"
    "square (board s2) (side ?s1)" "square (grid s2) (side ?s1)"
    "board ?s1 = grid ?s1 \<longrightarrow> board s2 = grid s2"
    "only_captures (grid ?s1) (grid s2) (turn ?s1)" by blast
  let ?s3 = "s2\<lparr>num_moves := num_moves s + 1\<rparr>"
  have t3: "1 \<le> turn ?s3" "turn ?s3 \<le> players ?s3"
    using assms(1) s2(3,5) pp unfolding wf_state_def by simp_all
  from change_turn_returns [OF t3] obtain s' where
    s': "change_turn ?s3 = Some s'" "s' = ?s3\<lparr>turn := turn s'\<rparr>"
    "1 \<le> turn s'" "turn s' \<le> players ?s3" by blast
  have nm: "num_moves s2 + 1 = num_moves s + 1" using s2(6) pp by simp
  have "apply_move s p = Some (Inr s')"
    unfolding apply_move_def using assms(2-5) s2(1) s'(1) nm by simp
  moreover have "board s = grid s \<longrightarrow> board s2 = grid s2"
    using s2(9) place_piece_same by blast
  ultimately show ?thesis using s2 s' pp by auto
qed

subsection \<open>Construction\<close>

text \<open>
  C8. Construction with \<open>(side, players, othello)\<close> succeeds exactly when
  \<open>side \<ge> 3\<close>, \<open>2 \<le> players \<le> 9\<close>, \<open>players \<le> side\<close>, side and players have the same
  parity, and othello implies \<open>players = 2\<close>; in every other case the constructor raises
  \<^verbatim>\<open>ValueError\<close>, the configuration error.
\<close>

theorem init_succeeds_iff:
  "((\<exists>s. init sd pl oth = Inr s) \<longleftrightarrow>
      (3 \<le> sd \<and> 2 \<le> pl \<and> pl \<le> 9 \<and> pl \<le> sd \<and> sd mod 2 = pl mod 2 \<and> (oth \<longrightarrow> pl = 2)))
   \<and> (init sd pl oth = Inl ValueError \<longleftrightarrow>
      \<not> (3 \<le> sd \<and> 2 \<le> pl \<and> pl \<le> 9 \<and> pl \<le> sd \<and> sd mod 2 = pl mod 2 \<and> (oth \<longrightarrow> pl = 2)))"
  unfolding init_def by (auto simp: mod_2_eq_odd)

theorem init_succeeds_iff_witness:
  "(\<exists>s. init 4 2 True = Inr s) \<and> init 4 3 True = Inl ValueError \<and> init 5 3 True = Inl ValueError"
  using init_succeeds_iff [of 4 2 True] init_succeeds_iff [of 4 3 True]
    init_succeeds_iff [of 5 3 True]
  by simp

subsection \<open>What a move turns over\<close>

lemma only_captures_keeps:
  assumes "only_captures g g' val" "in_grid g c" "cell_at g (fst c) (snd c) = Some val"
  shows "cell_at g' (fst c) (snd c) = Some val"
  using assms unfolding only_captures_def foreign_def by metis

lemma flip_dirs_run:
  assumes "square (board s) (side s)" "square (grid s) (side s)" "board s = grid s"
    and "othello s \<or> players s * players s \<le> num_moves s"
    and "distinct ns"
    and "\<forall>n\<in>set ns. fst n - fst p \<in> {-1, 0, 1} \<and> snd n - snd p \<in> {-1, 0, 1}"
    and "n0 \<in> set ns" "unit_dir (fst n0 - fst p, snd n0 - snd p)"
    and "outflanked (grid s) (turn s) p (fst n0 - fst p, snd n0 - snd p) k"
  shows "\<exists>s'. flip_dirs s p ns = Some s'
     \<and> (\<forall>j::nat. 1 \<le> j \<and> j \<le> k \<longrightarrow>
           cell_at (grid s') (fst (along p (fst n0 - fst p, snd n0 - snd p) (int j)))
                             (snd (along p (fst n0 - fst p, snd n0 - snd p) (int j)))
             = Some (turn s))"
  using assms(1,2,3,4,5,6,7,9)
proof (induction ns arbitrary: s)
  case Nil
  then show ?case by simp
next
  case (Cons n ns)
  let ?d = "(fst n0 - fst p, snd n0 - snd p)"
  have dnz: "fst ?d \<noteq> 0 \<or> snd ?d \<noteq> 0" using assms(8) unfolding unit_dir_def by auto
  have n0: "along p ?d 1 = n0" unfolding along_def by simp
  have n0_in: "in_grid (grid s) n0" using outflanked_first [OF Cons.prems(8)] n0 by simp
  from flip_dir_fields [OF Cons.prems(1,2), of p n] obtain s1 where s1: "flip_dir s p n = Some s1"
    "side s1 = side s" "players s1 = players s" "othello s1 = othello s"
    "turn s1 = turn s" "num_moves s1 = num_moves s"
    "square (board s1) (side s)" "square (grid s1) (side s)"
    "board s = grid s \<longrightarrow> board s1 = grid s1"
    "only_flips (grid s) (grid s1) (turn s) p (fst n - fst p, snd n - snd p)" by blast
  have sq1: "square (board s1) (side s1)" "square (grid s1) (side s1)" using s1(2,7,8) by simp_all
  have same_in: "\<And>x. in_grid (grid s1) x = in_grid (grid s) x"
    using square_same_in_grid [OF Cons.prems(2) s1(8)] by simp
  show ?case
  proof (cases "n = n0")
    case True
    have rng: "0 \<le> fst n0 \<and> fst n0 < side s \<and> 0 \<le> snd n0 \<and> snd n0 < side s"
      using n0_in square_in_grid [OF Cons.prems(2)] by simp
    have ne: "fst n0 \<noteq> fst p \<or> snd n0 \<noteq> snd p" using dnz by auto
    have ce: "check_end (grid s) (turn s) p (fst n0 - fst p) (snd n0 - snd p) = Some True"
      using check_end_outflanked [OF Cons.prems(8)] .
    from flip_pieces_run [of "(board s, grid s)" "turn s" p "fst n0 - fst p" "snd n0 - snd p" k "side s"]
      Cons.prems(2,3,8) dnz
    obtain bg where bg: "flip_pieces (board s, grid s) (turn s) p (fst n0 - fst p) (snd n0 - snd p) = Some bg"
      "\<forall>j::nat. 1 \<le> j \<and> j \<le> k \<longrightarrow>
           cell_at (snd bg) (fst (along p ?d (int j))) (snd (along p ?d (int j))) = Some (turn s)"
      by auto
    have "flip_dir s p n0 = Some (s\<lparr>board := fst bg, grid := snd bg\<rparr>)"
      unfolding flip_dir_def piece_differs_def using rng ne ce Cons.prems(4) bg(1) by simp
    with s1(1) True have "s1 = s\<lparr>board := fst bg, grid := snd bg\<rparr>" by simp
    then have g1: "grid s1 = snd bg" by simp
    from flip_dirs_props [OF sq1, of p ns] obtain s' where s': "flip_dirs s1 p ns = Some s'"
      "only_captures (grid s1) (grid s') (turn s1)" by blast
    have "\<forall>j::nat. 1 \<le> j \<and> j \<le> k \<longrightarrow>
           cell_at (grid s') (fst (along p ?d (int j))) (snd (along p ?d (int j))) = Some (turn s)"
    proof (intro allI impI)
      fix j :: nat assume j: "1 \<le> j \<and> j \<le> k"
      then have "in_grid (grid s) (along p ?d (int j))"
        using outflanked_in_grid [OF Cons.prems(8), of j] by simp
      then have "in_grid (grid s1) (along p ?d (int j))" using same_in by simp
      moreover have "cell_at (grid s1) (fst (along p ?d (int j))) (snd (along p ?d (int j))) = Some (turn s1)"
        using bg(2) j g1 s1(5) by simp
      ultimately show "cell_at (grid s') (fst (along p ?d (int j))) (snd (along p ?d (int j))) = Some (turn s)"
        using only_captures_keeps [OF s'(2)] s1(5) by simp
    qed
    moreover have "flip_dirs s p (n # ns) = Some s'" using s1(1) s'(1) by simp
    ultimately show ?thesis by blast
  next
    case False
    then have n0_ns: "n0 \<in> set ns" using Cons.prems(7) by simp
    have near: "fst n - fst p \<in> {-1, 0, 1} \<and> snd n - snd p \<in> {-1, 0, 1}"
      using Cons.prems(6) by simp
    have o1: "outflanked (grid s1) (turn s1) p ?d k"
      unfolding s1(5)
    proof (rule outflanked_cong [OF Cons.prems(8) same_in])
      fix j :: nat assume j: "1 \<le> j" "j \<le> Suc k"
      let ?c = "along p ?d (int j)"
      have c_in: "in_grid (grid s) ?c" using outflanked_in_grid [OF Cons.prems(8) j] .
      have "\<not> (\<exists>k'. 1 \<le> k' \<and> ?c = along p (fst n - fst p, snd n - snd p) k')"
      proof
        assume "\<exists>k'. 1 \<le> k' \<and> ?c = along p (fst n - fst p, snd n - snd p) k'"
        then obtain k' where k': "1 \<le> k'" "?c = along p (fst n - fst p, snd n - snd p) k'" by blast
        show False
        proof (cases "fst n - fst p = 0 \<and> snd n - snd p = 0")
          case True
          then have "?c = p" using k'(2) unfolding along_def by simp
          moreover have "?c \<noteq> p" using along_neq [OF dnz, of "int j" p] j by simp
          ultimately show False by simp
        next
          case False
          then have "unit_dir (fst n - fst p, snd n - snd p)"
            using near unfolding unit_dir_def by auto
          from rays_disjoint [OF assms(8) this _ k'(1) k'(2)] j
          have "?d = (fst n - fst p, snd n - snd p)" by simp
          then have "n = n0" by (simp add: prod_eq_iff)
          with \<open>n \<noteq> n0\<close> show False by simp
        qed
      qed
      then show "cell_at (grid s1) (fst ?c) (snd ?c) = cell_at (grid s) (fst ?c) (snd ?c)"
        using s1(10) c_in unfolding only_flips_def by blast
    qed
    have "board s1 = grid s1" using s1(9) Cons.prems(3) by simp
    moreover have "othello s1 \<or> players s1 * players s1 \<le> num_moves s1"
      using Cons.prems(4) s1(3,4,6) by simp
    moreover have "distinct ns" using Cons.prems(5) by simp
    moreover have "\<forall>n\<in>set ns. fst n - fst p \<in> {-1, 0, 1} \<and> snd n - snd p \<in> {-1, 0, 1}"
      using Cons.prems(6) by simp
    ultimately obtain s' where s': "flip_dirs s1 p ns = Some s'"
      "\<forall>j::nat. 1 \<le> j \<and> j \<le> k \<longrightarrow>
           cell_at (grid s') (fst (along p ?d (int j))) (snd (along p ?d (int j))) = Some (turn s1)"
      using Cons.IH [OF sq1 _ _ _ _ n0_ns o1] by blast
    have "flip_dirs s p (n # ns) = Some s'" using s1(1) s'(1) by simp
    then show ?thesis using s'(2) s1(5) by auto
  qed
qed

lemma flip_dirs_opening:
  assumes "opening_phase s"
  shows "flip_dirs s p ns = Some s"
proof -
  have one: "\<And>n. flip_dir s p n = Some s"
  proof -
    fix n
    show "flip_dir s p n = Some s"
    proof (cases "fst n \<noteq> fst p \<or> snd n \<noteq> snd p")
      case True
      then have "fst n - fst p \<noteq> 0 \<or> snd n - snd p \<noteq> 0" by auto
      from check_end_terminates [OF this] obtain b where
        "check_end (grid s) (turn s) p (fst n - fst p) (snd n - snd p) = Some b" by blast
      then show ?thesis using assms unfolding flip_dir_def opening_phase_def by auto
    next
      case False
      then show ?thesis unfolding flip_dir_def by auto
    qed
  qed
  show ?thesis by (induction ns) (simp_all add: one)
qed

subsection \<open>Available moves of a well-formed game\<close>

lemma av_cells_subset: "av_cells s t cs = Some r \<Longrightarrow> set r \<subseteq> set cs"
proof (induction cs arbitrary: r)
  case Nil
  then show ?case by simp
next
  case (Cons c cs)
  then show ?case by (auto split: option.splits if_splits)
qed

lemma open_spaces_props:
  assumes "square (board s) sd" "c \<in> set (open_spaces s)"
  shows "0 \<le> fst c \<and> fst c < sd \<and> 0 \<le> snd c \<and> snd c < sd
     \<and> cell_at (board s) (fst c) (snd c) = None"
proof -
  from assms(2) obtain i j where ij: "i < length (board s)" "j < length (board s ! i)"
    "board s ! i ! j = None" "c = (int i, int j)"
    unfolding open_spaces_def by (auto split: if_splits)
  have "length (board s) = nat sd" using assms(1) unfolding square_def by simp
  moreover have "length (board s ! i) = nat sd" using square_row [OF assms(1)] ij(1) calculation by simp
  ultimately show ?thesis using ij unfolding cell_at_def by auto
qed

lemma centre_block_props:
  assumes "0 < players s" "players s \<le> side s" "c \<in> set (centre_block s)"
  shows "0 \<le> fst c \<and> fst c < side s \<and> 0 \<le> snd c \<and> snd c < side s"
proof -
  have m: "top_left s \<le> fst c" "fst c \<le> top_left s + players s - 1"
    "top_left s \<le> snd c" "snd c \<le> top_left s + players s - 1"
    using assms(3) unfolding centre_block_def by auto
  have "0 \<le> top_left s" unfolding top_left_def using assms(1,2) by (simp add: zdiv_mono1)
  moreover have "top_left s + players s \<le> side s" unfolding top_left_def using assms(1,2) by linarith
  ultimately show ?thesis using m by linarith
qed

lemma moves_props:
  assumes "wf_state s" "players_av_moves s t = Some ms" "c \<in> set ms"
  shows "0 \<le> fst c \<and> fst c < side s \<and> 0 \<le> snd c \<and> snd c < side s
     \<and> (opening_phase s \<longrightarrow> cell_at (grid s) (fst c) (snd c) = None)
     \<and> (\<not> opening_phase s \<longrightarrow> cell_at (board s) (fst c) (snd c) = None)"
proof (cases "opening_phase s")
  case True
  then have "ms = sort (remdups (filter (\<lambda>c. cell_at (grid s) (fst c) (snd c) = None) (centre_block s)))"
    using assms(2) unfolding players_av_moves_def opening_phase_def by simp
  then have c: "c \<in> set (centre_block s)" "cell_at (grid s) (fst c) (snd c) = None"
    using assms(3) by simp_all
  have "0 < players s" "players s \<le> side s" using assms(1) unfolding wf_state_def by linarith+
  from centre_block_props [OF this c(1)] c(2) True show ?thesis by simp
next
  case False
  then obtain ps where ps: "av_cells s t (open_spaces s) = Some ps" "ms = sort (remdups ps)"
    using assms(2) unfolding players_av_moves_def opening_phase_def by (auto split: option.splits)
  then have "c \<in> set (open_spaces s)" using av_cells_subset [OF ps(1)] assms(3) by auto
  moreover have "square (board s) (side s)" using assms(1) unfolding wf_state_def by simp
  ultimately show ?thesis using open_spaces_props False by blast
qed

lemma moves_sorted:
  assumes "players_av_moves s t = Some ms"
  shows "sorted ms \<and> distinct ms"
  using assms unfolding players_av_moves_def by (auto split: if_splits option.splits)

subsection \<open>Placing and flipping\<close>

lemma open3_reached:
  "(case init 3 3 False of Inl e \<Rightarrow> None | Inr s \<Rightarrow> apply_moves s [(0, 0), (0, 1), (1, 0)])
     = Some (Inr open3)"
  by code_simp

lemma place_piece_empty:
  assumes "cell_at (board s) (fst p) (snd p) = None"
  shows "grid (place_piece s p) = set_cell (grid s) (fst p) (snd p) (Some (turn s))"
    and "opening_phase (place_piece s p) = opening_phase s"
  using assms unfolding place_piece_def add_piece_def opening_phase_def
  by (auto split: prod.splits)

text \<open>
  C1 as stated fails in the opening phase: in the 3x3 game of three players after the moves
  (0, 0), (0, 1), (1, 0), the position (0, 2) is a legal move of player 1, the piece of
  player 2 at (0, 1) lies on a run from (0, 2) that ends in the piece of player 1 at (0, 0),
  the outflank test \<^verbatim>\<open>check_end\<close> answers True, and yet after \<^verbatim>\<open>apply_move((0, 2))\<close> the cell
  (0, 1) still belongs to player 2.
\<close>

theorem opening_move_flips_nothing:
  "available_moves open3 = Some [(0, 2), (1, 1), (1, 2), (2, 0), (2, 1), (2, 2)]
   \<and> outflanked (grid open3) (turn open3) (0, 2) (0, -1) 1
   \<and> check_end (grid open3) (turn open3) (0, 2) 0 (-1) = Some True
   \<and> apply_move open3 (0, 2) = Some (Inr open3_after)
   \<and> cell_at (grid open3) 0 1 = Some 2
   \<and> cell_at (grid open3_after) 0 1 = Some 2"
  by code_simp

subsection \<open>What a move places and turns over\<close>

text \<open>
  C1, amended.  In a well-formed game whose two board representations agree, for every
  legal move \<open>p\<close> of the current player \<^verbatim>\<open>apply_move\<close> returns and places the player's piece
  at \<open>p\<close>.  In the opening phase it changes no other cell.  After the opening phase (or in
  the Othello variant) every foreign piece on a run from \<open>p\<close>, in one of the eight
  directions, that ends in a piece of the player becomes the player's, and every other
  cell either keeps its content or goes from a foreign piece to a piece of the player.
\<close>

theorem apply_move_places_and_flips:
  assumes "wf_state s" "board s = grid s"
    and "available_moves s = Some ms" "p \<in> set ms"
  shows "\<exists>s'. apply_move s p = Some (Inr s')
     \<and> cell_at (grid s') (fst p) (snd p) = Some (turn s)
     \<and> (opening_phase s \<longrightarrow> grid s' = set_cell (grid s) (fst p) (snd p) (Some (turn s)))
     \<and> (\<not> opening_phase s \<longrightarrow>
          (\<forall>d k j. unit_dir d \<and> outflanked (grid s) (turn s) p d k \<and> 1 \<le> j \<and> j \<le> k \<longrightarrow>
              cell_at (grid s') (fst (along p d (int j))) (snd (along p d (int j))) = Some (turn s))
          \<and> (\<forall>c. in_grid (grid s) c \<and> c \<noteq> p \<longrightarrow>
                cell_at (grid s') (fst c) (snd c) = cell_at (grid s) (fst c) (snd c)
                \<or> (foreign (grid s) (turn s) c \<and> cell_at (grid s') (fst c) (snd c) = Some (turn s))))"
proof -
  let ?t = "turn s" and ?s1 = "place_piece s p"
  have sq: "square (board s) (side s)" "square (grid s) (side s)"
    using assms(1) unfolding wf_state_def by simp_all
  from moves_props [OF assms(1) assms(3) [unfolded available_moves_def] assms(4)] assms(2)
  have b: "0 \<le> fst p" "fst p < side s" "0 \<le> snd p" "snd p < side s"
    and empty: "cell_at (board s) (fst p) (snd p) = None" by auto
  have p_in: "in_grid (grid s) p" using b square_in_grid [OF sq(2)] by simp
  note pp = place_piece_props [OF sq, of p]
  have g1: "grid ?s1 = set_cell (grid s) (fst p) (snd p) (Some ?t)"
    and ph1: "opening_phase ?s1 = opening_phase s"
    using place_piece_empty [OF empty] by simp_all
  have in1: "\<And>x. in_grid (grid ?s1) x = in_grid (grid s) x"
    unfolding g1 by (rule in_grid_set_cell)
  have cell1: "\<And>x. in_grid (grid s) x \<Longrightarrow>
      cell_at (grid ?s1) (fst x) (snd x) = (if x = p then Some ?t else cell_at (grid s) (fst x) (snd x))"
    unfolding g1 using cell_at_set_cell [OF sq(2) p_in] by simp
  from apply_move_returns [OF assms(1) b] obtain s2 s' where
    r: "flip_dirs ?s1 p (neighbours p) = Some s2"
    "apply_move s p = Some (Inr s')"
    "s' = s2\<lparr>num_moves := num_moves s + 1, turn := turn s'\<rparr>"
    "only_captures (grid ?s1) (grid s2) ?t" by blast
  have gs': "grid s' = grid s2" by (subst r(3)) simp
  have at_p: "cell_at (grid s') (fst p) (snd p) = Some ?t"
    unfolding gs' using only_captures_keeps [OF r(4), of p] in1 p_in cell1 [OF p_in] by simp
  have op_case: "opening_phase s \<longrightarrow> grid s' = set_cell (grid s) (fst p) (snd p) (Some ?t)"
  proof
    assume "opening_phase s"
    then have "flip_dirs ?s1 p (neighbours p) = Some ?s1" using flip_dirs_opening ph1 by simp
    with r(1) have "s2 = ?s1" by simp
    then show "grid s' = set_cell (grid s) (fst p) (snd p) (Some ?t)" using gs' g1 by simp
  qed
  have normal: "\<not> opening_phase s \<longrightarrow>
          (\<forall>d k j. unit_dir d \<and> outflanked (grid s) ?t p d k \<and> 1 \<le> j \<and> j \<le> k \<longrightarrow>
              cell_at (grid s') (fst (along p d (int j))) (snd (along p d (int j))) = Some ?t)
          \<and> (\<forall>c. in_grid (grid s) c \<and> c \<noteq> p \<longrightarrow>
                cell_at (grid s') (fst c) (snd c) = cell_at (grid s) (fst c) (snd c)
                \<or> (foreign (grid s) ?t c \<and> cell_at (grid s') (fst c) (snd c) = Some ?t))"
  proof (intro impI conjI allI)
    fix d :: pos and k j :: nat
    assume ph: "\<not> opening_phase s"
      and a: "unit_dir d \<and> outflanked (grid s) ?t p d k \<and> 1 \<le> j \<and> j \<le> k"
    let ?n0 = "along p d 1"
    have d: "(fst ?n0 - fst p, snd ?n0 - snd p) = d" unfolding along_def by simp
    have dnz: "fst d \<noteq> 0 \<or> snd d \<noteq> 0" using a unfolding unit_dir_def by (auto simp: prod_eq_iff)
    have o1: "outflanked (grid ?s1) (turn ?s1) p d k"
    proof -
      have "outflanked (grid ?s1) ?t p d k"
      proof (rule outflanked_cong [of "grid s" ?t p d k])
        show "outflanked (grid s) ?t p d k" using a by simp
        show "\<And>x. in_grid (grid ?s1) x = in_grid (grid s) x" by (rule in1)
      next
        fix i :: nat assume i: "1 \<le> i" "i \<le> Suc k"
        have "in_grid (grid s) (along p d (int i))" using outflanked_in_grid [of "grid s" ?t p d k i] a i by simp
        moreover have "along p d (int i) \<noteq> p" using along_neq [OF dnz, of "int i" p] i by simp
        ultimately show "cell_at (grid ?s1) (fst (along p d (int i))) (snd (along p d (int i)))
            = cell_at (grid s) (fst (along p d (int i))) (snd (along p d (int i)))"
          using cell1 by simp
      qed
      then show ?thesis using pp by simp
    qed
    have n0: "?n0 \<in> set (neighbours p)"
      unfolding neighbours_near using a d unfolding unit_dir_def by (simp add: along_def)
    have near: "\<forall>n\<in>set (neighbours p). fst n - fst p \<in> {-1, 0, 1} \<and> snd n - snd p \<in> {-1, 0, 1}"
      using neighbours_near by blast
    have sq1: "square (board ?s1) (side ?s1)" "square (grid ?s1) (side ?s1)" using pp by simp_all
    have same1: "board ?s1 = grid ?s1" using place_piece_same [OF assms(2)] .
    have phase1: "othello ?s1 \<or> players ?s1 * players ?s1 \<le> num_moves ?s1"
      using ph pp unfolding opening_phase_def by auto
    from flip_dirs_run [OF sq1 same1 phase1 distinct_neighbours near n0, of k]
      a o1 d r(1)
    have "\<forall>j::nat. 1 \<le> j \<and> j \<le> k \<longrightarrow>
           cell_at (grid s2) (fst (along p d (int j))) (snd (along p d (int j))) = Some (turn ?s1)"
      by simp
    then show "cell_at (grid s') (fst (along p d (int j))) (snd (along p d (int j))) = Some ?t"
      using a gs' pp by simp
  next
    fix c assume "\<not> opening_phase s" and c: "in_grid (grid s) c \<and> c \<noteq> p"
    then have c1: "cell_at (grid ?s1) (fst c) (snd c) = cell_at (grid s) (fst c) (snd c)"
      using cell1 by simp
    then have "foreign (grid ?s1) ?t c = foreign (grid s) ?t c" unfolding foreign_def by simp
    moreover have "in_grid (grid ?s1) c" using c in1 by simp
    ultimately show "cell_at (grid s') (fst c) (snd c) = cell_at (grid s) (fst c) (snd c)
        \<or> (foreign (grid s) ?t c \<and> cell_at (grid s') (fst c) (snd c) = Some ?t)"
      using r(4) c1 gs' unfolding only_captures_def by metis
  qed
  from r(2) at_p op_case normal show ?thesis by blast
qed

lemma othello4_facts:
  "wf_state othello4" "board othello4 = grid othello4"
  "available_moves othello4 = Some [(0, 1), (1, 0), (2, 3), (3, 2)]"
  "\<not> opening_phase othello4" "unit_dir (1, 0)"
  "outflanked (grid othello4) (turn othello4) (0, 1) (1, 0) 1"
  "apply_move othello4 (0, 1) = Some (Inr othello4_after)"
  by code_simp+

theorem apply_move_places_and_flips_witness:
  "wf_state othello4 \<and> board othello4 = grid othello4
   \<and> available_moves othello4 = Some [(0, 1), (1, 0), (2, 3), (3, 2)]
   \<and> \<not> opening_phase othello4 \<and> unit_dir (1, 0)
   \<and> outflanked (grid othello4) (turn othello4) (0, 1) (1, 0) 1
   \<and> apply_move othello4 (0, 1) = Some (Inr othello4_after)
   \<and> cell_at (grid othello4_after) 0 1 = Some (turn othello4)
   \<and> cell_at (grid othello4_after) 1 1 = Some (turn othello4)"
proof -
  have m: "(0, 1) \<in> set [(0, 1), (1, 0), (2, 3), (3, 2) :: pos]" by simp
  from apply_move_places_and_flips [OF othello4_facts(1,2,3) m] othello4_facts(7)
  have c: "cell_at (grid othello4_after) (fst ((0, 1) :: pos)) (snd ((0, 1) :: pos)) = Some (turn othello4)"
    and n: "\<not> opening_phase othello4 \<longrightarrow>
      (\<forall>d k j. unit_dir d \<and> outflanked (grid othello4) (turn othello4) (0, 1) d k \<and> 1 \<le> j \<and> j \<le> k \<longrightarrow>
          cell_at (grid othello4_after) (fst (along (0, 1) d (int j))) (snd (along (0, 1) d (int j)))
            = Some (turn othello4))"
    by auto
  from n othello4_facts(4,5,6)
  have "cell_at (grid othello4_after) (fst (along (0, 1) (1, 0) (int 1))) (snd (along (0, 1) (1, 0) (int 1)))
            = Some (turn othello4)"
    by (metis le_refl)
  then have "cell_at (grid othello4_after) 1 1 = Some (turn othello4)"
    by (simp add: along_def)
  with c othello4_facts show ?thesis by simp
qed

text \<open>
  The flipping walk does not stop at the piece that ends the run: it goes on as long as
  \<^verbatim>\<open>check_end\<close> holds from the cell reached.  In the position \<open>row6\<close> the move (0, 0) of
  player 1 outflanks only the piece at (0, 1), and the piece of player 2 at (0, 3), behind
  the piece of player 1 at (0, 2), is turned over as well.
\<close>

lemma apply_move_flips_past_run_end:
  "available_moves row6 = Some [(0, 0)]
   \<and> outflanked (grid row6) 1 (0, 0) (0, 1) 1
   \<and> map_option (map_sum id grid) (apply_move row6 (0, 0))
       = Some (Inr [[Some 1, Some 1, Some 1, Some 1, Some 1, None],
                    [None, None, None, None, None, None], [None, None, None, None, None, None],
                    [None, None, None, None, None, None], [None, None, None, None, None, None],
                    [None, None, None, None, None, None]])"
  by code_simp

subsection \<open>Moves keep a game well-formed; simulation on values\<close>

lemma apply_move_wf:
  assumes "wf_state s"
    and "0 \<le> fst p" "fst p < side s" "0 \<le> snd p" "snd p < side s"
  shows "\<exists>s'. apply_move s p = Some (Inr s') \<and> wf_state s'
     \<and> side s' = side s \<and> players s' = players s \<and> othello s' = othello s"
proof -
  from apply_move_returns [OF assms] obtain s2 s' where
    r: "apply_move s p = Some (Inr s')"
    "s' = s2\<lparr>num_moves := num_moves s + 1, turn := turn s'\<rparr>"
    "side s2 = side s" "players s2 = players s" "othello s2 = othello s"
    "square (board s2) (side s)" "square (grid s2) (side s)"
    "1 \<le> turn s'" "turn s' \<le> players s" by blast
  have f: "side s' = side s2" "players s' = players s2" "othello s' = othello s2"
    "board s' = board s2" "grid s' = grid s2"
    by (subst r(2), simp)+
  have "wf_state s'"
    unfolding wf_state_def using f r(3-9) assms(1) unfolding wf_state_def by simp
  then show ?thesis using r(1) f r(3,4,5) by simp
qed

lemma apply_move_out_of_bounds:
  assumes "\<not> (0 \<le> fst p \<and> fst p < side s \<and> 0 \<le> snd p \<and> snd p < side s)"
  shows "apply_move s p = Some (Inl ValueError)"
  using assms unfolding apply_move_def by auto

lemma sim_loop_in_bounds:
  assumes "wf_state sim" "side sim = side self"
    and "\<forall>m\<in>set ms. 0 \<le> fst m \<and> fst m < side self \<and> 0 \<le> snd m \<and> snd m < side self"
  shows "\<exists>r. sim_loop self sim ms = Some (Inr r) \<and> apply_moves sim ms = Some (Inr r)
     \<and> wf_state r \<and> side r = side sim \<and> players r = players sim \<and> othello r = othello sim"
  using assms
proof (induction ms arbitrary: sim)
  case Nil
  then show ?case by simp
next
  case (Cons m ms)
  have b: "0 \<le> fst m" "fst m < side sim" "0 \<le> snd m" "snd m < side sim"
    using Cons.prems(2,3) by simp_all
  from apply_move_wf [OF Cons.prems(1) b] obtain s1 where
    s1: "apply_move sim m = Some (Inr s1)" "wf_state s1" "side s1 = side sim"
    "players s1 = players sim" "othello s1 = othello sim" by blast
  have "side s1 = side self" using s1(3) Cons.prems(2) by simp
  moreover have "\<forall>m\<in>set ms. 0 \<le> fst m \<and> fst m < side self \<and> 0 \<le> snd m \<and> snd m < side self"
    using Cons.prems(3) by simp
  ultimately obtain r where r: "sim_loop self s1 ms = Some (Inr r)" "apply_moves s1 ms = Some (Inr r)"
    "wf_state r" "side r = side s1" "players r = players s1" "othello r = othello s1"
    using Cons.IH [OF s1(2)] by blast
  have "sim_loop self sim (m # ms) = Some (Inr r)"
    using b Cons.prems(2) s1(1) r(1) by simp
  moreover have "apply_moves sim (m # ms) = Some (Inr r)" using s1(1) r(2) by simp
  ultimately show ?case using r s1 by simp
qed

lemma sim_loop_out_of_bounds:
  assumes "wf_state sim" "side sim = side self"
    and "\<exists>m\<in>set ms. \<not> (0 \<le> fst m \<and> fst m < side self \<and> 0 \<le> snd m \<and> snd m < side self)"
  shows "sim_loop self sim ms = Some (Inl ValueError)"
  using assms
proof (induction ms arbitrary: sim)
  case Nil
  then show ?case by simp
next
  case (Cons m ms)
  show ?case
  proof (cases "0 \<le> fst m \<and> fst m < side self \<and> 0 \<le> snd m \<and> snd m < side self")
    case False
    then show ?thesis by auto
  next
    case True
    then have b: "0 \<le> fst m" "fst m < side sim" "0 \<le> snd m" "snd m < side sim"
      using Cons.prems(2) by simp_all
    from apply_move_wf [OF Cons.prems(1) b] obtain s1 where
      s1: "apply_move sim m = Some (Inr s1)" "wf_state s1" "side s1 = side sim" by blast
    have "side s1 = side self" using s1(3) Cons.prems(2) by simp
    moreover have "\<exists>m\<in>set ms. \<not> (0 \<le> fst m \<and> fst m < side self \<and> 0 \<le> snd m \<and> snd m < side self)"
      using Cons.prems(3) True by auto
    ultimately have "sim_loop self s1 ms = Some (Inl ValueError)"
      using Cons.IH [OF s1(2)] by blast
    then show ?thesis using True s1(1) by simp
  qed
qed

subsection \<open>Simulation in the store\<close>

lemma state_of_store_state:
  assumes "live h r" "side s = side (state_of h r)" "players s = players (state_of h r)"
    "othello s = othello (state_of h r)"
  shows "state_of (store_state h r s) r = s"
  using assms unfolding state_of_def store_state_def live_def by simp

lemma store_state_frame:
  assumes "live h r"
  shows "length (objects (store_state h r s)) = length (objects h)"
    and "length (lists (store_state h r s)) = length (lists h)"
    and "i_grid (objects (store_state h r s) ! r) = i_grid (objects h ! r)"
    and "r' \<noteq> r \<Longrightarrow> objects (store_state h r s) ! r' = objects h ! r'"
    and "g \<noteq> i_grid (objects h ! r) \<Longrightarrow> lists (store_state h r s) ! g = lists h ! g"
  using assms unfolding store_state_def live_def by simp_all

lemma deepcopy_props:
  assumes "live h r"
  shows "snd (deepcopy h r) = length (objects h)"
    and "live (fst (deepcopy h r)) r" "live (fst (deepcopy h r)) (snd (deepcopy h r))"
    and "objects (fst (deepcopy h r)) ! r = objects h ! r"
    and "lists (fst (deepcopy h r)) ! i_grid (objects h ! r) = lists h ! i_grid (objects h ! r)"
    and "i_grid (objects (fst (deepcopy h r)) ! snd (deepcopy h r)) = length (lists h)"
    and "state_of (fst (deepcopy h r)) (snd (deepcopy h r)) = state_of h r"
    and "state_of (fst (deepcopy h r)) r = state_of h r"
  using assms unfolding deepcopy_def live_def state_of_def by (simp_all add: nth_append)

lemma h_sim_loop_spec:
  assumes "live h self" "live h sim" "sim \<noteq> self"
    and "i_grid (objects h ! sim) \<noteq> i_grid (objects h ! self)"
    and "wf_state (state_of h sim)" "side (state_of h sim) = side (state_of h self)"
  shows "\<exists>res h'. h_sim_loop h self sim ms = Some (res, h')
     \<and> objects h' ! self = objects h ! self
     \<and> lists h' ! i_grid (objects h ! self) = lists h ! i_grid (objects h ! self)
     \<and> i_grid (objects h' ! sim) = i_grid (objects h ! sim)
     \<and> (\<forall>s'. sim_loop (state_of h self) (state_of h sim) ms = Some (Inr s')
           \<longrightarrow> res = Inr sim \<and> state_of h' sim = s')
     \<and> (\<forall>e. sim_loop (state_of h self) (state_of h sim) ms = Some (Inl e) \<longrightarrow> res = Inl e)"
  using assms
proof (induction ms arbitrary: h)
  case Nil
  then show ?case by simp
next
  case (Cons m ms)
  have sd: "i_side (objects h ! self) = side (state_of h self)" unfolding state_of_def by simp
  show ?case
  proof (cases "0 \<le> fst m \<and> fst m < side (state_of h self) \<and> 0 \<le> snd m \<and> snd m < side (state_of h self)")
    case False
    then show ?thesis using sd by auto
  next
    case True
    then have b: "0 \<le> fst m" "fst m < side (state_of h sim)" "0 \<le> snd m" "snd m < side (state_of h sim)"
      using Cons.prems(6) by simp_all
    from apply_move_wf [OF Cons.prems(5) b] obtain s1 where
      s1: "apply_move (state_of h sim) m = Some (Inr s1)" "wf_state s1"
      "side s1 = side (state_of h sim)" "players s1 = players (state_of h sim)"
      "othello s1 = othello (state_of h sim)" by blast
    let ?h1 = "store_state h sim s1"
    have am: "h_apply_move h sim m = Some (None, ?h1)" unfolding h_apply_move_def using s1(1) by simp
    note fr = store_state_frame [OF Cons.prems(2), where s = s1]
    have o_self: "objects ?h1 ! self = objects h ! self" using fr(4) Cons.prems(3) by simp
    have l_self: "lists ?h1 ! i_grid (objects h ! self) = lists h ! i_grid (objects h ! self)"
      using fr(5) Cons.prems(4) by simp
    have live1: "live ?h1 self" "live ?h1 sim"
      using Cons.prems(1,2) fr(1,2,3) o_self unfolding live_def by simp_all
    have st_sim: "state_of ?h1 sim = s1"
      using state_of_store_state [OF Cons.prems(2) s1(3,4,5)] .
    have st_self: "state_of ?h1 self = state_of h self"
      unfolding state_of_def using o_self l_self by simp
    have g1: "i_grid (objects ?h1 ! sim) \<noteq> i_grid (objects ?h1 ! self)"
      using fr(3) o_self Cons.prems(4) by simp
    have wf1: "wf_state (state_of ?h1 sim)" "side (state_of ?h1 sim) = side (state_of ?h1 self)"
      using st_sim st_self s1(2,3) Cons.prems(6) by simp_all
    from Cons.IH [OF live1 Cons.prems(3) g1 wf1] obtain res h' where
      r: "h_sim_loop ?h1 self sim ms = Some (res, h')"
      "objects h' ! self = objects ?h1 ! self"
      "lists h' ! i_grid (objects ?h1 ! self) = lists ?h1 ! i_grid (objects ?h1 ! self)"
      "i_grid (objects h' ! sim) = i_grid (objects ?h1 ! sim)"
      "\<forall>s'. sim_loop (state_of ?h1 self) (state_of ?h1 sim) ms = Some (Inr s')
           \<longrightarrow> res = Inr sim \<and> state_of h' sim = s'"
      "\<forall>e. sim_loop (state_of ?h1 self) (state_of ?h1 sim) ms = Some (Inl e) \<longrightarrow> res = Inl e"
      by blast
    have loop: "h_sim_loop h self sim (m # ms) = Some (res, h')"
      using True sd am r(1) by simp
    have vloop: "sim_loop (state_of h self) (state_of h sim) (m # ms)
        = sim_loop (state_of h self) s1 ms"
      using True s1(1) by simp
    show ?thesis
      using loop vloop r(2,3,4,5,6) o_self l_self fr(3) st_sim st_self
      by (auto simp del: h_sim_loop.simps sim_loop.simps)
  qed
qed

subsection \<open>The loop of the lookahead bot\<close>

lemma simulate_one:
  assumes "wf_state g" "0 \<le> fst m" "fst m < side g" "0 \<le> snd m" "snd m < side g"
  shows "\<exists>s1. simulate_moves g [m] = Some (Inr s1) \<and> apply_move g m = Some (Inr s1)
     \<and> wf_state s1"
proof -
  from apply_move_wf [OF assms] obtain s1 where
    "apply_move g m = Some (Inr s1)" "wf_state s1" by blast
  then show ?thesis unfolding simulate_moves_def using assms(2-5) by simp
qed

lemma seer_total_returns:
  assumes "wf_state s1"
    and "\<forall>m\<in>set np. 0 \<le> fst m \<and> fst m < side s1 \<and> 0 \<le> snd m \<and> snd m < side s1"
  shows "\<exists>r. seer_total s1 t np tot = Some (Inr r)"
  using assms(2)
proof (induction np arbitrary: tot)
  case Nil
  then show ?case by simp
next
  case (Cons m np)
  then have "0 \<le> fst m" "fst m < side s1" "0 \<le> snd m" "snd m < side s1" by simp_all
  from simulate_one [OF assms(1) this] obtain final where
    f: "simulate_moves s1 [m] = Some (Inr final)" by blast
  from Cons.IH [of "tot + count_cells (grid final) t"] Cons.prems obtain r where
    "seer_total s1 t np (tot + count_cells (grid final) t) = Some (Inr r)" by auto
  then show ?case using f by simp
qed

lemma seer_loop_passes:
  assumes "wf_state g" "0 \<le> fst c" "fst c < side g" "0 \<le> snd c" "snd c < side g"
    and "\<forall>s1. simulate_moves g [c] = Some (Inr s1) \<longrightarrow> done_prop s1 \<noteq> Some True"
  shows "\<exists>highest' best'. seer_loop g t (c # rest) highest best = seer_loop g t rest highest' best'"
proof -
  from simulate_one [OF assms(1-5)] obtain s1 where
    s1: "simulate_moves g [c] = Some (Inr s1)" "wf_state s1" by blast
  obtain d where d: "done_prop s1 = Some d" using done_prop_Some by blast
  then have nd: "done_prop s1 = Some False" using assms(6) s1(1) by (cases d) auto
  obtain np where np: "available_moves s1 = Some np"
    unfolding available_moves_def using players_av_moves_Some by blast
  show ?thesis
  proof (cases "np = []")
    case True
    then have "seer_loop g t (c # rest) highest best = seer_loop g t rest highest best"
      using s1(1) nd np by simp
    then show ?thesis by blast
  next
    case False
    have "\<forall>m\<in>set np. 0 \<le> fst m \<and> fst m < side s1 \<and> 0 \<le> snd m \<and> snd m < side s1"
      using moves_props [OF s1(2) np [unfolded available_moves_def]] by blast
    from seer_total_returns [OF s1(2) this, of t 0] obtain tot where
      tot: "seer_total s1 t np 0 = Some (Inr tot)" by blast
    let ?avg = "of_int tot / of_int (int (length np)) :: rat"
    consider (gt) "case highest of None \<Rightarrow> True | Some hi \<Rightarrow> ?avg > hi"
      | (eq) "\<not> (case highest of None \<Rightarrow> True | Some hi \<Rightarrow> ?avg > hi)" "highest = Some ?avg"
      | (lt) "\<not> (case highest of None \<Rightarrow> True | Some hi \<Rightarrow> ?avg > hi)" "highest \<noteq> Some ?avg"
      by blast
    then show ?thesis
    proof cases
      case gt
      then have "seer_loop g t (c # rest) highest best = seer_loop g t rest (Some ?avg) [c]"
        using s1(1) nd np False tot by simp
      then show ?thesis by blast
    next
      case eq
      then have "seer_loop g t (c # rest) highest best = seer_loop g t rest highest (best @ [c])"
        using s1(1) nd np False tot by simp
      then show ?thesis by blast
    next
      case lt
      then have "seer_loop g t (c # rest) highest best = seer_loop g t rest highest best"
        using s1(1) nd np False tot by simp
      then show ?thesis by blast
    qed
  qed
qed

lemma seer_loop_break:
  assumes "wf_state g"
    and "\<forall>c\<in>set pre. 0 \<le> fst c \<and> fst c < side g \<and> 0 \<le> snd c \<and> snd c < side g"
    and "\<forall>c\<in>set pre. \<forall>s1. simulate_moves g [c] = Some (Inr s1) \<longrightarrow> done_prop s1 \<noteq> Some True"
    and "simulate_moves g [m] = Some (Inr sm)" "done_prop sm = Some True"
  shows "seer_loop g t (pre @ m # post) highest best = Some (Inr [m])"
  using assms(2,3)
proof (induction pre arbitrary: highest best)
  case Nil
  show ?case using assms(4,5) by simp
next
  case (Cons c pre)
  have b: "0 \<le> fst c" "fst c < side g" "0 \<le> snd c" "snd c < side g" using Cons.prems(1) by simp_all
  have nd: "\<forall>s1. simulate_moves g [c] = Some (Inr s1) \<longrightarrow> done_prop s1 \<noteq> Some True"
    using Cons.prems(2) by simp
  from seer_loop_passes [OF assms(1) b nd, of t "pre @ m # post" highest best]
  obtain highest' best' where
    "seer_loop g t (c # pre @ m # post) highest best = seer_loop g t (pre @ m # post) highest' best'"
    by blast
  moreover have "seer_loop g t (pre @ m # post) highest' best' = Some (Inr [m])"
    using Cons.IH [of highest' best'] Cons.prems by simp
  ultimately show ?case by simp
qed

subsection \<open>The turn after a move\<close>

text \<open>
  C2. For a well-formed game and a position inside the board, \<^verbatim>\<open>apply_move\<close> returns, and
  afterwards either the game is done, or the turn is the first player after the mover, in
  the cyclic order of the players, who has an available move, the players before having
  none.  In particular, when the next player has no move and the one after has, the turn
  is the latter.
\<close>

theorem apply_move_turn_advances:
  assumes "wf_state s"
    and "0 \<le> fst p" "fst p < side s" "0 \<le> snd p" "snd p < side s"
  shows "\<exists>s'. apply_move s p = Some (Inr s')
     \<and> (done_prop s' = Some True
         \<or> (\<exists>k. 1 \<le> k \<and> k \<le> players s
               \<and> turn s' = player_after (players s) (turn s) k
               \<and> (\<exists>ms. players_av_moves s' (turn s') = Some ms \<and> ms \<noteq> [])
               \<and> (\<forall>i. 1 \<le> i \<and> i < k \<longrightarrow>
                     players_av_moves s' (player_after (players s) (turn s) i) = Some [])))
     \<and> (players_av_moves s' (player_after (players s) (turn s) 1) = Some []
         \<and> players_av_moves s' (player_after (players s) (turn s) 2) \<noteq> Some []
         \<longrightarrow> turn s' = player_after (players s) (turn s) 2)"
proof -
  from apply_move_returns [OF assms] obtain s2 s' where
    r: "change_turn (s2\<lparr>num_moves := num_moves s + 1\<rparr>) = Some s'"
    "apply_move s p = Some (Inr s')"
    "s' = s2\<lparr>num_moves := num_moves s + 1, turn := turn s'\<rparr>"
    "players s2 = players s" "turn s2 = turn s" by blast
  let ?s3 = "s2\<lparr>num_moves := num_moves s + 1\<rparr>"
  let ?P = "players s" and ?t = "turn s"
  have av: "\<And>q. players_av_moves s' q = players_av_moves ?s3 q"
    by (subst r(3)) simp
  have dn: "done_prop s' = done_prop ?s3"
    by (subst r(3)) simp
  have t3: "1 \<le> turn ?s3" "turn ?s3 \<le> players ?s3"
    using assms(1) r(4,5) unfolding wf_state_def by simp_all
  have P: "0 < ?P" using assms(1) unfolding wf_state_def by linarith
  obtain d where d: "done_prop ?s3 = Some d" using done_prop_Some by blast
  show ?thesis
  proof (cases d)
    case True
    have "1 \<le> player_after ?P ?t 2 \<and> player_after ?P ?t 2 \<le> players ?s3"
      using player_after_range [OF P] r(4) by simp
    then have "players_av_moves ?s3 (player_after ?P ?t 2) = Some []"
      using done_prop_True [of ?s3] d True by simp
    then show ?thesis using r(2) dn d True av by auto
  next
    case False
    with d have "done_prop ?s3 = Some False" by simp
    from change_turn_first [OF t3 this] obtain k where k: "1 \<le> k" "k \<le> players ?s3"
      "change_turn ?s3 = Some (?s3\<lparr>turn := player_after (players ?s3) (turn ?s3) k\<rparr>)"
      "\<exists>ms. players_av_moves ?s3 (player_after (players ?s3) (turn ?s3) k) = Some ms \<and> ms \<noteq> []"
      "\<forall>i. 1 \<le> i \<and> i < k \<longrightarrow>
           players_av_moves ?s3 (player_after (players ?s3) (turn ?s3) i) = Some []"
      by blast
    have ts: "turn s' = player_after ?P ?t k" using k(3) r(1,4,5) by auto
    have k4: "\<exists>ms. players_av_moves s' (turn s') = Some ms \<and> ms \<noteq> []"
      using k(4) ts av r(4,5) by simp
    have k5: "\<forall>i. 1 \<le> i \<and> i < k \<longrightarrow> players_av_moves s' (player_after ?P ?t i) = Some []"
      using k(5) av r(4,5) by simp
    have part: "players_av_moves s' (player_after ?P ?t 1) = Some []
         \<and> players_av_moves s' (player_after ?P ?t 2) \<noteq> Some []
         \<longrightarrow> turn s' = player_after ?P ?t 2"
    proof
      assume a: "players_av_moves s' (player_after ?P ?t 1) = Some []
         \<and> players_av_moves s' (player_after ?P ?t 2) \<noteq> Some []"
      have "k \<noteq> 1" using a k4 ts by auto
      moreover have "\<not> 2 < k" using a k5 by auto
      ultimately have "k = 2" using k(1) by linarith
      then show "turn s' = player_after ?P ?t 2" using ts by simp
    qed
    have "\<exists>k. 1 \<le> k \<and> k \<le> ?P \<and> turn s' = player_after ?P ?t k
               \<and> (\<exists>ms. players_av_moves s' (turn s') = Some ms \<and> ms \<noteq> [])
               \<and> (\<forall>i. 1 \<le> i \<and> i < k \<longrightarrow> players_av_moves s' (player_after ?P ?t i) = Some [])"
      using k(1,2) ts k4 k5 r(4) by (intro exI [of _ k]) simp
    with r(2) part show ?thesis by blast
  qed
qed

lemma skip4_wf: "wf_state skip4"
  by code_simp

lemma skip4_move: "apply_move skip4 (0, 2) = Some (Inr skip4_after)"
  by code_simp

lemma skip4_after_moves:
  "players_av_moves skip4_after 1 = Some [] \<and> players_av_moves skip4_after 2 = Some [(3, 2)]"
  by code_simp

theorem apply_move_turn_advances_witness:
  "wf_state skip4 \<and> apply_move skip4 (0, 2) = Some (Inr skip4_after)
   \<and> player_after (players skip4) (turn skip4) 1 = 1
   \<and> players_av_moves skip4_after 1 = Some []
   \<and> player_after (players skip4) (turn skip4) 2 = 2
   \<and> players_av_moves skip4_after 2 \<noteq> Some []
   \<and> turn skip4_after = player_after (players skip4) (turn skip4) 2"
proof -
  have b: "0 \<le> fst ((0, 2) :: pos)" "fst ((0, 2) :: pos) < side skip4"
    "0 \<le> snd ((0, 2) :: pos)" "snd ((0, 2) :: pos) < side skip4"
    by (simp_all add: skip4_def)
  have pa: "player_after (players skip4) (turn skip4) 1 = 1"
    "player_after (players skip4) (turn skip4) 2 = 2"
    by (simp_all add: skip4_def player_after_def)
  from apply_move_turn_advances [OF skip4_wf b]
  have "players_av_moves skip4_after (player_after (players skip4) (turn skip4) 1) = Some []
         \<and> players_av_moves skip4_after (player_after (players skip4) (turn skip4) 2) \<noteq> Some []
         \<longrightarrow> turn skip4_after = player_after (players skip4) (turn skip4) 2"
    using skip4_move by auto
  then show ?thesis using skip4_wf skip4_move skip4_after_moves pa by simp
qed

subsection \<open>Simulation leaves the receiver alone; the grid property does not\<close>

text \<open>
  C3. For a live, well-formed instance \<^verbatim>\<open>simulate_moves(moves)\<close> ends; it leaves the
  receiver's attributes and its list object \<^verbatim>\<open>_grid\<close>, hence its whole state, as they
  were.  When every move is inside the board it returns a new instance, distinct from the
  receiver and with a list object of its own, whose state is the result of calling
  \<^verbatim>\<open>apply_move\<close> for the moves in sequence on the receiver's state; when some move is
  outside the board it raises \<^verbatim>\<open>ValueError\<close>.
\<close>

theorem simulate_moves_frame:
  assumes "live h self" "wf_state (state_of h self)"
  shows "\<exists>res h'. h_simulate_moves h self ms = Some (res, h')
     \<and> objects h' ! self = objects h ! self
     \<and> lists h' ! i_grid (objects h ! self) = lists h ! i_grid (objects h ! self)
     \<and> state_of h' self = state_of h self
     \<and> ((\<forall>m\<in>set ms. 0 \<le> fst m \<and> fst m < side (state_of h self)
                        \<and> 0 \<le> snd m \<and> snd m < side (state_of h self))
         \<longrightarrow> (\<exists>sim s'. res = Inr sim \<and> sim \<noteq> self
                \<and> i_grid (objects h' ! sim) \<noteq> i_grid (objects h' ! self)
                \<and> apply_moves (state_of h self) ms = Some (Inr s')
                \<and> state_of h' sim = s'))
     \<and> ((\<exists>m\<in>set ms. \<not> (0 \<le> fst m \<and> fst m < side (state_of h self)
                        \<and> 0 \<le> snd m \<and> snd m < side (state_of h self)))
         \<longrightarrow> res = Inl ValueError)"
proof -
  let ?h0 = "fst (deepcopy h self)" and ?sim = "snd (deepcopy h self)"
  let ?s = "state_of h self"
  note dc = deepcopy_props [OF assms(1)]
  have ne: "?sim \<noteq> self" using dc(1) assms(1) unfolding live_def by simp
  have gne: "i_grid (objects ?h0 ! ?sim) \<noteq> i_grid (objects ?h0 ! self)"
    using dc(4,6) assms(1) unfolding live_def by simp
  have wf0: "wf_state (state_of ?h0 ?sim)" "side (state_of ?h0 ?sim) = side (state_of ?h0 self)"
    using dc(7,8) assms(2) by simp_all
  from h_sim_loop_spec [OF dc(2,3) ne gne wf0, of ms] obtain res h' where
    r: "h_sim_loop ?h0 self ?sim ms = Some (res, h')"
    "objects h' ! self = objects ?h0 ! self"
    "lists h' ! i_grid (objects ?h0 ! self) = lists ?h0 ! i_grid (objects ?h0 ! self)"
    "i_grid (objects h' ! ?sim) = i_grid (objects ?h0 ! ?sim)"
    "\<forall>s'. sim_loop (state_of ?h0 self) (state_of ?h0 ?sim) ms = Some (Inr s')
           \<longrightarrow> res = Inr ?sim \<and> state_of h' ?sim = s'"
    "\<forall>e. sim_loop (state_of ?h0 self) (state_of ?h0 ?sim) ms = Some (Inl e) \<longrightarrow> res = Inl e"
    by blast
  have run: "h_simulate_moves h self ms = Some (res, h')"
    unfolding h_simulate_moves_def using r(1) .
  have o: "objects h' ! self = objects h ! self" using r(2) dc(4) by simp
  have l: "lists h' ! i_grid (objects h ! self) = lists h ! i_grid (objects h ! self)"
    using r(3) dc(4,5) by simp
  have st: "state_of h' self = state_of h self" unfolding state_of_def using o l by simp
  have a: "(\<forall>m\<in>set ms. 0 \<le> fst m \<and> fst m < side ?s \<and> 0 \<le> snd m \<and> snd m < side ?s)
         \<longrightarrow> (\<exists>sim s'. res = Inr sim \<and> sim \<noteq> self
                \<and> i_grid (objects h' ! sim) \<noteq> i_grid (objects h' ! self)
                \<and> apply_moves ?s ms = Some (Inr s') \<and> state_of h' sim = s')"
  proof
    assume "\<forall>m\<in>set ms. 0 \<le> fst m \<and> fst m < side ?s \<and> 0 \<le> snd m \<and> snd m < side ?s"
    from sim_loop_in_bounds [OF assms(2) _ this] obtain s' where
      s': "sim_loop ?s ?s ms = Some (Inr s')" "apply_moves ?s ms = Some (Inr s')" by auto
    then have "res = Inr ?sim \<and> state_of h' ?sim = s'" using r(5) dc(7,8) by simp
    moreover have "i_grid (objects h' ! ?sim) \<noteq> i_grid (objects h' ! self)"
      using r(2,4) gne by simp
    ultimately show "\<exists>sim s'. res = Inr sim \<and> sim \<noteq> self
                \<and> i_grid (objects h' ! sim) \<noteq> i_grid (objects h' ! self)
                \<and> apply_moves ?s ms = Some (Inr s') \<and> state_of h' sim = s'"
      using ne s'(2) by blast
  qed
  have b: "(\<exists>m\<in>set ms. \<not> (0 \<le> fst m \<and> fst m < side ?s \<and> 0 \<le> snd m \<and> snd m < side ?s))
         \<longrightarrow> res = Inl ValueError"
  proof
    assume "\<exists>m\<in>set ms. \<not> (0 \<le> fst m \<and> fst m < side ?s \<and> 0 \<le> snd m \<and> snd m < side ?s)"
    from sim_loop_out_of_bounds [OF assms(2) _ this]
    have "sim_loop ?s ?s ms = Some (Inl ValueError)" by simp
    then show "res = Inl ValueError" using r(6) dc(7,8) by simp
  qed
  from run o l st a b show ?thesis by blast
qed

lemma heap0_facts:
  "live heap0 0" "state_of heap0 0 = othello4" "wf_state (state_of heap0 0)"
  "apply_moves othello4 [(0, 1)] = Some (Inr othello4_after)"
  by code_simp+

theorem simulate_moves_frame_witness:
  "live heap0 0 \<and> wf_state (state_of heap0 0)
   \<and> (\<exists>sim h'. h_simulate_moves heap0 0 [(0, 1)] = Some (Inr sim, h') \<and> sim \<noteq> 0
         \<and> state_of h' sim = othello4_after \<and> state_of h' 0 = othello4)
   \<and> (\<exists>h'. h_simulate_moves heap0 0 [(0, 1), (4, 0)] = Some (Inl ValueError, h')
         \<and> state_of h' 0 = othello4)"
proof -
  have s4: "side othello4 = 4" by (simp add: othello4_def)
  from simulate_moves_frame [OF heap0_facts(1,3), of "[(0, 1)]"]
  have a: "\<exists>sim h'. h_simulate_moves heap0 0 [(0, 1)] = Some (Inr sim, h') \<and> sim \<noteq> 0
         \<and> state_of h' sim = othello4_after \<and> state_of h' 0 = othello4"
    unfolding heap0_facts(2) using heap0_facts(4) s4 by auto
  from simulate_moves_frame [OF heap0_facts(1,3), of "[(0, 1), (4, 0)]"]
  have b: "\<exists>h'. h_simulate_moves heap0 0 [(0, 1), (4, 0)] = Some (Inl ValueError, h')
         \<and> state_of h' 0 = othello4"
    unfolding heap0_facts(2) using s4 by auto
  from a b heap0_facts(1,3) show ?thesis by blast
qed

text \<open>
  C4. The snapshot returned by \<^verbatim>\<open>grid\<close> should share no storage with the engine.
  \<^verbatim>\<open>Reversi.grid\<close> returns the list object \<^verbatim>\<open>_grid\<close> itself: after a caller has written
  2 into cell (0, 0) of the returned list, \<^verbatim>\<open>piece_at((0, 0))\<close> answers 2 instead of
  \<^verbatim>\<open>None\<close>; after a caller has written 1 into cell (1, 1), the available moves of
  player 1 have changed.  With the
  \<^verbatim>\<open>grid\<close> of the mocks, which returns a deep copy, the same write changes nothing.
\<close>

theorem grid_snapshot_is_shared:
  "h_piece_at heap0 0 (0, 0) = Inr None
   \<and> h_piece_at (list_write (fst (h_grid heap0 0)) (snd (h_grid heap0 0)) 0 0 (Some 2)) 0 (0, 0)
       = Inr (Some 2)
   \<and> available_moves (state_of heap0 0) = Some [(0, 1), (1, 0), (2, 3), (3, 2)]
   \<and> available_moves
        (state_of (list_write (fst (h_grid heap0 0)) (snd (h_grid heap0 0)) 1 1 (Some 1)) 0)
       = Some [(2, 3), (3, 2), (3, 3)]
   \<and> h_piece_at (list_write (fst (h_grid_mock heap0 0)) (snd (h_grid_mock heap0 0)) 0 0 (Some 2))
        0 (0, 0)
       = Inr None"
  by code_simp

subsection \<open>The lookahead bot stops at the first finishing move\<close>

text \<open>
  C9. In \<^verbatim>\<open>seer_move\<close> on a well-formed game the candidates are taken in the order of
  \<^verbatim>\<open>available_moves\<close>.  If \<open>m\<close> is the first candidate whose one-move simulation is done,
  the loop ends at \<open>m\<close> with \<^verbatim>\<open>best = [m]\<close>, whatever the values of \<^verbatim>\<open>highest\<close> and \<^verbatim>\<open>best\<close>
  collected before and whatever candidates follow (none of them is simulated), and the
  move applied to the live game is \<open>m\<close>.
\<close>

theorem seer_move_takes_first_finishing_move:
  assumes "wf_state g" "available_moves g = Some (pre @ m # post)"
    and "\<forall>c\<in>set pre. \<forall>s1. simulate_moves g [c] = Some (Inr s1) \<longrightarrow> done_prop s1 \<noteq> Some True"
    and "\<forall>s1. simulate_moves g [m] = Some (Inr s1) \<longrightarrow> done_prop s1 = Some True"
    and "\<forall>a b. a \<le> b \<longrightarrow> a \<le> randint a b \<and> randint a b \<le> b"
  shows "(\<forall>rest highest best. seer_loop g t (pre @ m # rest) highest best = Some (Inr [m]))
     \<and> seer_move randint g t = apply_move g m"
proof -
  have inb: "\<forall>c\<in>set (pre @ m # post). 0 \<le> fst c \<and> fst c < side g \<and> 0 \<le> snd c \<and> snd c < side g"
    using moves_props [OF assms(1) assms(2) [unfolded available_moves_def]] by blast
  then have bm: "0 \<le> fst m" "fst m < side g" "0 \<le> snd m" "snd m < side g" by simp_all
  have bpre: "\<forall>c\<in>set pre. 0 \<le> fst c \<and> fst c < side g \<and> 0 \<le> snd c \<and> snd c < side g"
    using inb by simp
  from simulate_one [OF assms(1) bm] obtain sm where sm: "simulate_moves g [m] = Some (Inr sm)"
    by blast
  then have dm: "done_prop sm = Some True" using assms(4) by simp
  have loop: "\<And>rest highest best. seer_loop g t (pre @ m # rest) highest best = Some (Inr [m])"
    using seer_loop_break [OF assms(1) bpre assms(3) sm dm] .
  have "randint 0 0 = 0" using assms(5) [rule_format, of 0 0] by simp
  then have "py_index [m] (randint 0 (int (length [m]) - 1)) = Inr m"
    unfolding py_index_def by simp
  then have "seer_move randint g t = apply_move g m"
    unfolding seer_move_def using assms(2) loop [of post None "[]"] by simp
  with loop show ?thesis by blast
qed

lemma endgame4_facts:
  "wf_state endgame4"
  "available_moves endgame4 = Some ([(0, 0)] @ (1, 0) # [])"
  "map_option (map_sum id done_prop) (simulate_moves endgame4 [(0, 0)]) = Some (Inr (Some False))"
  "map_option (map_sum id done_prop) (simulate_moves endgame4 [(1, 0)]) = Some (Inr (Some True))"
  by code_simp+

theorem seer_move_takes_first_finishing_move_witness:
  "wf_state endgame4 \<and> available_moves endgame4 = Some [(0, 0), (1, 0)]
   \<and> map_option (map_sum id done_prop) (simulate_moves endgame4 [(0, 0)]) = Some (Inr (Some False))
   \<and> map_option (map_sum id done_prop) (simulate_moves endgame4 [(1, 0)]) = Some (Inr (Some True))
   \<and> seer_loop endgame4 1 [(0, 0), (1, 0), (7, 7)] None [] = Some (Inr [(1, 0)])
   \<and> seer_move randint_low endgame4 1 = apply_move endgame4 (1, 0)"
proof -
  have h3: "\<forall>c\<in>set [(0, 0) :: pos]. \<forall>s1. simulate_moves endgame4 [c] = Some (Inr s1)
      \<longrightarrow> done_prop s1 \<noteq> Some True"
    using endgame4_facts(3) by auto
  have h4: "\<forall>s1. simulate_moves endgame4 [(1, 0)] = Some (Inr s1) \<longrightarrow> done_prop s1 = Some True"
    using endgame4_facts(4) by auto
  have h5: "\<forall>a b. a \<le> b \<longrightarrow> a \<le> randint_low a b \<and> randint_low a b \<le> b"
    unfolding randint_low_def by simp
  from seer_move_takes_first_finishing_move [OF endgame4_facts(1,2) h3 h4 h5, of 1]
  have "seer_loop endgame4 1 ([(0, 0)] @ (1, 0) # [(7, 7)]) None [] = Some (Inr [(1, 0)])"
    and "seer_move randint_low endgame4 1 = apply_move endgame4 (1, 0)" by blast+
  then show ?thesis using endgame4_facts by simp
qed

subsection \<open>Loading a game: what the code does on concrete inputs\<close>

text \<open>
  C5. After a successful \<^verbatim>\<open>load_game(turn, grid)\<close> the board read through \<^verbatim>\<open>piece_at\<close>
  should be the supplied grid.  On the Othello start position, loading the empty 4x4 grid
  returns without an exception, yet \<^verbatim>\<open>_grid\<close> keeps the four old pieces: the loop only
  writes the cells that are occupied in the supplied grid, and \<^verbatim>\<open>piece_at((1, 1))\<close> still
  answers 2 where the supplied grid is empty.
\<close>

theorem load_game_keeps_old_cells:
  "load_game othello4 1 empty4 = Some (None, othello4\<lparr>board := empty4\<rparr>)
   \<and> piece_at (othello4\<lparr>board := empty4\<rparr>) (1, 1) = Inr (Some 2)
   \<and> cell_at empty4 1 1 = None"
  by code_simp

text \<open>
  C6. \<^verbatim>\<open>load_game\<close> should raise exactly on a wrong size, an invalid turn or an invalid
  cell, and leave the state as it was when it raises.  The turn 0 is accepted (only
  \<^verbatim>\<open>turn > players\<close> is tested), and a grid whose second cell is the invalid player 5
  raises \<^verbatim>\<open>ValueError\<close> after the first cell has already been written into \<^verbatim>\<open>_grid\<close>.
\<close>

theorem load_game_validation_gaps:
  "load_game othello4 0 (grid othello4) = Some (None, othello4\<lparr>num_moves := 4\<rparr>)
   \<and> load_game othello4 1
        [[Some 1, Some 5, None, None], [None, None, None, None],
         [None, None, None, None], [None, None, None, None]]
      = Some (Some ValueError,
          othello4\<lparr>grid := [[Some 1, None, None, None], [None, Some 2, Some 1, None],
                              [None, Some 1, Some 2, None], [None, None, None, None]]\<rparr>)"
  by code_simp

text \<open>
  C7. The available moves of a player should all be empty cells.  After loading, on the
  Othello start position, a grid with only the pieces 2 at (1, 2) and 1 at (1, 3), the
  cell (1, 1) is empty in \<^verbatim>\<open>_board.grid\<close> and still holds the old piece 2 in \<^verbatim>\<open>_grid\<close>;
  it is listed as a move of player 1 although \<^verbatim>\<open>piece_at((1, 1))\<close> is 2.
\<close>

theorem available_move_on_occupied_cell:
  "load_game othello4 1
      [[None, None, None, None], [None, None, Some 2, Some 1],
       [None, None, None, None], [None, None, None, None]]
    = Some (None,
        \<lparr>side = 4, players = 2, othello = True,
         board = [[None, None, None, None], [None, None, Some 2, Some 1],
                  [None, None, None, None], [None, None, None, None]],
         grid = [[None, None, None, None], [None, Some 2, Some 2, Some 1],
                 [None, Some 1, Some 2, None], [None, None, None, None]],
         turn = 1, num_moves = 2\<rparr>)
   \<and> players_av_moves
        \<lparr>side = 4, players = 2, othello = True,
         board = [[None, None, None, None], [None, None, Some 2, Some 1],
                  [None, None, None, None], [None, None, None, None]],
         grid = [[None, None, None, None], [None, Some 2, Some 2, Some 1],
                 [None, Some 1, Some 2, None], [None, None, None, None]],
         turn = 1, num_moves = 2\<rparr> 1
      = Some [(0, 1), (0, 3), (1, 0), (1, 1), (2, 3), (3, 1)]
   \<and> piece_at
        \<lparr>side = 4, players = 2, othello = True,
         board = [[None, None, None, None], [None, None, Some 2, Some 1],
                  [None, None, None, None], [None, None, None, None]],
         grid = [[None, None, None, None], [None, Some 2, Some 2, Some 1],
                 [None, Some 1, Some 2, None], [None, None, None, None]],
         turn = 1, num_moves = 2\<rparr> (1, 1)
      = Inr (Some 2)"
  by code_simp

text \<open>
  C10. Whenever the game is not done, the current player should have a move, also after
  \<^verbatim>\<open>load_game\<close>.  A new game without the Othello start has move counter 0; loading a
  position with four pieces in which player 1 cannot move and player 2 can, with turn 1,
  tests \<^verbatim>\<open>available_moves\<close> while the move counter is still 0 (the opening rule answers
  with the empty centre cells), keeps the turn, and only then sets the counter to 4.  The
  state left behind is not done and its current player has no move.
\<close>

theorem load_game_leaves_turn_without_move:
  "load_game fresh4 1
      [[Some 2, Some 1, None, None], [None, None, None, None],
       [None, None, None, None], [Some 2, Some 1, None, None]]
    = Some (None,
        \<lparr>side = 4, players = 2, othello = False,
         board = [[Some 2, Some 1, None, None], [None, None, None, None],
                  [None, None, None, None], [Some 2, Some 1, None, None]],
         grid = [[Some 2, Some 1, None, None], [None, None, None, None],
                 [None, None, None, None], [Some 2, Some 1, None, None]],
         turn = 1, num_moves = 4\<rparr>)
   \<and> done_prop
        \<lparr>side = 4, players = 2, othello = False,
         board = [[Some 2, Some 1, None, None], [None, None, None, None],
                  [None, None, None, None], [Some 2, Some 1, None, None]],
         grid = [[Some 2, Some 1, None, None], [None, None, None, None],
                 [None, None, None, None], [Some 2, Some 1, None, None]],
         turn = 1, num_moves = 4\<rparr>
      = Some False
   \<and> available_moves
        \<lparr>side = 4, players = 2, othello = False,
         board = [[Some 2, Some 1, None, None], [None, None, None, None],
                  [None, None, None, None], [Some 2, Some 1, None, None]],
         grid = [[Some 2, Some 1, None, None], [None, None, None, None],
                 [None, None, None, None], [Some 2, Some 1, None, None]],
         turn = 1, num_moves = 4\<rparr>
      = Some []"
  by code_simp

end
